theory Spec2Isabelle
  imports Main "HOL-Library.Word" "HOL-Library.Char_ord" "HOL-Library.List_Lexorder"
begin

unbundle bit_operations_syntax

section \<open>Go strings: Split and Join on the slash separator\<close>

text \<open>
  A Go \<^verbatim>\<open>string\<close> is a byte sequence; it is modelled as \<^typ>\<open>string\<close> (a list of
  8-bit characters). Every call of \<^verbatim>\<open>strings.Split\<close> and \<^verbatim>\<open>strings.Join\<close> in the
  converters uses the one-byte separator \<^verbatim>\<open>"/"\<close>, so the separator is a character.
  \<^verbatim>\<open>strings.Split\<close> never returns an empty slice for a non-empty separator:
  \<^verbatim>\<open>Split("", "/")\<close> is \<^verbatim>\<open>[""]\<close>.
\<close>

fun strings_Split :: "string \<Rightarrow> char \<Rightarrow> string list" where
  "strings_Split [] sep = [[]]"
| "strings_Split (c # cs) sep =
     (if c = sep then [] # strings_Split cs sep
      else (case strings_Split cs sep of
              [] \<Rightarrow> [[c]]
            | x # xs \<Rightarrow> (c # x) # xs))"

fun strings_Join :: "string list \<Rightarrow> char \<Rightarrow> string" where
  "strings_Join [] sep = []"
| "strings_Join [x] sep = x"
| "strings_Join (x # y # ys) sep = x @ sep # strings_Join (y # ys) sep"

section \<open>Key prefix transform\<close>

text \<open>
  The loop \<^verbatim>\<open>for i := range pe { if ke[i] != pe[i] { return ... } }\<close> of
  \<^verbatim>\<open>keyHasPrefix\<close> and \<^verbatim>\<open>keyStripPrefix\<close>: it runs over the indices of \<^verbatim>\<open>pe\<close>
  in order and leaves at the first index where the segments differ. Both functions
  only enter it when \<^verbatim>\<open>len(ke) >= len(pe)\<close>, so \<^verbatim>\<open>ke[i]\<close> is in range.
\<close>

fun segments_differ :: "string list \<Rightarrow> string list \<Rightarrow> nat list \<Rightarrow> bool" where
  "segments_differ ke pe [] = False"
| "segments_differ ke pe (i # is) =
     (if ke ! i \<noteq> pe ! i then True else segments_differ ke pe is)"

definition keyHasPrefix :: "string \<Rightarrow> string \<Rightarrow> bool" where
  "keyHasPrefix key prefix =
     (let ke = strings_Split key (CHR ''/'');
          pe = strings_Split prefix (CHR ''/'')
      in if length ke < length pe then False
         else if segments_differ ke pe [0 ..< length pe] then False
         else True)"

definition keyStripPrefix :: "string \<Rightarrow> string \<Rightarrow> string" where
  "keyStripPrefix key prefix =
     (let ke = strings_Split key (CHR ''/'');
          pe = strings_Split prefix (CHR ''/'')
      in if length ke < length pe then strings_Join ke (CHR ''/'')
         else if segments_differ ke pe [0 ..< length pe] then strings_Join ke (CHR ''/'')
         else strings_Join (drop (length pe) ke) (CHR ''/''))"

definition keyAddPrefix :: "string \<Rightarrow> string \<Rightarrow> string" where
  "keyAddPrefix key prefix =
     (if prefix = [] then key
      else let pe = strings_Split prefix (CHR ''/'');
               ke = strings_Split key (CHR ''/'');
               elems = [] @ pe @ ke
           in strings_Join elems (CHR ''/''))"

section \<open>Errors and records\<close>

text \<open>
  Go errors are values. The converters build their messages with \<^verbatim>\<open>fmt.Errorf\<close>;
  the model keeps the arguments of the format instead of the formatted text, so
  that the ordinal in a message can be read back. \<open>SysError\<close> stands for any
  error handed back by the operating system or by a library (file system, JSON),
  \<open>WalkStopped\<close> for the variable \<^verbatim>\<open>walkStopped\<close> of the stepped walker. A
  run-time panic is not an error value: it ends the program, and a function of the
  model that can panic returns an option, \<open>None\<close> where the program ends.
\<close>

type_synonym byte = "8 word"

datatype error =
    CorruptInputError
  | EOF
  | InvalidConsulPath string
  | WhileProcessingEntry "64 word" error
  | EntryError "64 word" error
  | ErrorString string
  | SysError string
  | WalkStopped

text \<open>
  \<^verbatim>\<open>consul.Entry\<close> (a key, flags and a base64 string) and \<^verbatim>\<open>vault.Entry\<close> (a key
  and raw bytes).
\<close>

record consul_Entry =
  consul_Key :: string
  consul_Flags :: "64 word"
  consul_Value :: string

record vault_Entry =
  vault_Key :: string
  vault_Value :: "byte list"

section \<open>Base64, standard alphabet with padding\<close>

text \<open>
  \<^verbatim>\<open>base64.StdEncoding\<close> of the Go standard library, which both converters call:
  the alphabet of RFC 4648, the padding character \<^verbatim>\<open>=\<close>, a decoder that is not
  strict about trailing bits and that ignores carriage returns and line feeds.
  \<open>encode_tab\<close> is the table \<^verbatim>\<open>enc.encode\<close>, \<open>decodeMap\<close> the table
  \<^verbatim>\<open>enc.decodeMap\<close> (\<^verbatim>\<open>0xFF\<close> for a byte outside the alphabet).
\<close>

definition encodeStd :: string where
  "encodeStd = ''ABCDEFGHIJKLMNOPQRSTUVWXYZabcdefghijklmnopqrstuvwxyz0123456789+/''"

definition padChar :: char where
  "padChar = CHR ''=''"

definition encode_tab :: "64 word \<Rightarrow> char" where
  "encode_tab v = encodeStd ! unat v"

fun index_of :: "char \<Rightarrow> string \<Rightarrow> nat \<Rightarrow> nat option" where
  "index_of c [] i = None"
| "index_of c (x # xs) i = (if c = x then Some i else index_of c xs (Suc i))"

definition decodeMap :: "char \<Rightarrow> byte" where
  "decodeMap c = (case index_of c encodeStd 0 of None \<Rightarrow> 0xFF | Some i \<Rightarrow> of_nat i)"

text \<open>
  \<^verbatim>\<open>EncodeToString\<close>: three source bytes give four characters; a last block of one
  or two bytes gives two or three characters and is padded to four.
\<close>

fun base64_EncodeToString :: "byte list \<Rightarrow> string" where
  "base64_EncodeToString [] = []"
| "base64_EncodeToString [a] =
     (let val = push_bit 16 (ucast a) :: 64 word
      in [encode_tab (drop_bit 18 val AND 0x3F), encode_tab (drop_bit 12 val AND 0x3F),
          padChar, padChar])"
| "base64_EncodeToString [a, b] =
     (let val = push_bit 16 (ucast a) OR push_bit 8 (ucast b) :: 64 word
      in [encode_tab (drop_bit 18 val AND 0x3F), encode_tab (drop_bit 12 val AND 0x3F),
          encode_tab (drop_bit 6 val AND 0x3F), padChar])"
| "base64_EncodeToString (a # b # c # src) =
     (let val = push_bit 16 (ucast a) OR push_bit 8 (ucast b) OR ucast c :: 64 word
      in [encode_tab (drop_bit 18 val AND 0x3F), encode_tab (drop_bit 12 val AND 0x3F),
          encode_tab (drop_bit 6 val AND 0x3F), encode_tab (val AND 0x3F)]
         @ base64_EncodeToString src)"

text \<open>
  The decoder collects up to four 6-bit values in \<^verbatim>\<open>dbuf\<close> (zero where nothing was
  read) and turns a quantum of \<open>j\<close> values into \<open>j - 1\<close> bytes.
\<close>

definition dbuf_at :: "byte list \<Rightarrow> nat \<Rightarrow> byte" where
  "dbuf_at dbuf j = (if j < length dbuf then dbuf ! j else 0)"

definition quantum_bytes :: "byte list \<Rightarrow> byte list" where
  "quantum_bytes dbuf =
     (let val = push_bit 18 (ucast (dbuf_at dbuf 0)) OR push_bit 12 (ucast (dbuf_at dbuf 1))
                OR push_bit 6 (ucast (dbuf_at dbuf 2)) OR ucast (dbuf_at dbuf 3) :: 64 word
      in take (length dbuf - 1)
           [ucast (drop_bit 16 val), ucast (drop_bit 8 val), ucast (drop_bit 0 val)])"

fun skip_newlines :: "string \<Rightarrow> string" where
  "skip_newlines [] = []"
| "skip_newlines (c # cs) =
     (if c = CHR 0x0A \<or> c = CHR 0x0D then skip_newlines cs else c # cs)"

definition emit :: "byte list \<Rightarrow> error + byte list \<Rightarrow> error + byte list" where
  "emit bs r = (case r of Inl e \<Rightarrow> Inl e | Inr rest \<Rightarrow> Inr (bs @ rest))"

text \<open>
  \<^verbatim>\<open>DecodeString\<close>: the quantum loop of the decoder, one character at a time. A
  character of the alphabet fills \<^verbatim>\<open>dbuf\<close>; a line break is skipped; padding is
  legal only after two or three values, must be complete, and nothing but line breaks
  may follow it; the input may not end inside a quantum. Every failure is a
  \<^verbatim>\<open>CorruptInputError\<close>, whose byte offset the model leaves out.
\<close>

fun decode :: "string \<Rightarrow> byte list \<Rightarrow> error + byte list" where
  "decode [] dbuf = (if dbuf = [] then Inr [] else Inl CorruptInputError)"
| "decode (c # src) dbuf =
     (let out = decodeMap c in
      if out \<noteq> 0xFF then
        (if length dbuf = 3 then emit (quantum_bytes (dbuf @ [out])) (decode src [])
         else decode src (dbuf @ [out]))
      else if c = CHR 0x0A \<or> c = CHR 0x0D then decode src dbuf
      else if c \<noteq> padChar then Inl CorruptInputError
      else if length dbuf = 0 \<or> length dbuf = 1 then Inl CorruptInputError
      else if length dbuf = 2 then
        (case skip_newlines src of
           [] \<Rightarrow> Inl CorruptInputError
         | c' # src' \<Rightarrow>
             if c' \<noteq> padChar then Inl CorruptInputError
             else if skip_newlines src' \<noteq> [] then Inl CorruptInputError
             else Inr (quantum_bytes dbuf))
      else
        (if skip_newlines src \<noteq> [] then Inl CorruptInputError
         else Inr (quantum_bytes dbuf)))"

definition base64_DecodeString :: "string \<Rightarrow> error + byte list" where
  "base64_DecodeString s = decode s []"

section \<open>Entry conversion\<close>

text \<open>
  Both programs call their entry conversion \<^verbatim>\<open>convertEntry\<close>. \<open>convertEntry_fc\<close>
  is the one of \<^verbatim>\<open>vault-convert-backend-filesystem-consul\<close> (tree to array): it
  adds the prefix and encodes the value, and its error is always nil.
  \<open>convertEntry_cf\<close> is the one of \<^verbatim>\<open>vault-convert-backend-consul-filesystem\<close>
  (array to tree): it decodes the value, fails when the decoder fails, and strips
  the prefix.
\<close>

definition convertEntry_fc :: "vault_Entry \<Rightarrow> string \<Rightarrow> error + consul_Entry" where
  "convertEntry_fc entry keyPrefix =
     Inr \<lparr> consul_Key = keyAddPrefix (vault_Key entry) keyPrefix,
           consul_Flags = 0,
           consul_Value = base64_EncodeToString (vault_Value entry) \<rparr>"

definition convertEntry_cf :: "consul_Entry \<Rightarrow> string \<Rightarrow> error + vault_Entry" where
  "convertEntry_cf entry keyPrefix =
     (case base64_DecodeString (consul_Value entry) of
        Inl err \<Rightarrow> Inl err
      | Inr v \<Rightarrow> Inr \<lparr> vault_Key = keyStripPrefix (consul_Key entry) keyPrefix,
                      vault_Value = v \<rparr>)"

section \<open>Paths\<close>

text \<open>
  \<^verbatim>\<open>path.Split\<close> cuts a path right after its last slash. \<^verbatim>\<open>path.Clean\<close> is
  modelled by the rules of its documentation, applied to the slash-separated
  elements from left to right: empty elements and \<^verbatim>\<open>.\<close> are dropped, \<^verbatim>\<open>..\<close>
  removes the element before it, is dropped at the root, and is kept at the start of
  a path that is not rooted; the empty result is \<^verbatim>\<open>.\<close>. \<^verbatim>\<open>path.Join\<close> joins from
  the first non-empty element on and cleans the result. On the platforms the tools
  are built for, \<^verbatim>\<open>filepath\<close> is \<^verbatim>\<open>path\<close> with the same separator, and
  \<^verbatim>\<open>filepath.Dir\<close> cleans what precedes the last slash.
\<close>

definition path_Split :: "string \<Rightarrow> string \<times> string" where
  "path_Split p =
     (rev (dropWhile (\<lambda>c. c \<noteq> CHR ''/'') (rev p)),
      rev (takeWhile (\<lambda>c. c \<noteq> CHR ''/'') (rev p)))"

fun clean_elems :: "bool \<Rightarrow> string list \<Rightarrow> string list \<Rightarrow> string list" where
  "clean_elems rooted [] out = out"
| "clean_elems rooted (e # es) out =
     (if e = [] \<or> e = ''.'' then clean_elems rooted es out
      else if e = ''..'' then
        (if out \<noteq> [] \<and> last out \<noteq> ''..'' then clean_elems rooted es (butlast out)
         else if rooted then clean_elems rooted es out
         else clean_elems rooted es (out @ [''..'']))
      else clean_elems rooted es (out @ [e]))"

definition path_Clean :: "string \<Rightarrow> string" where
  "path_Clean p =
     (if p = [] then ''.''
      else let rooted = (hd p = CHR ''/'');
               out = clean_elems rooted (strings_Split p (CHR ''/'')) []
           in if rooted then CHR ''/'' # strings_Join out (CHR ''/'')
              else if out = [] then ''.''
              else strings_Join out (CHR ''/''))"

fun path_Join :: "string list \<Rightarrow> string" where
  "path_Join [] = []"
| "path_Join (e # elem) =
     (if e \<noteq> [] then path_Clean (strings_Join (e # elem) (CHR ''/'')) else path_Join elem)"

definition filepath_Clean :: "string \<Rightarrow> string" where
  "filepath_Clean = path_Clean"

definition filepath_Join :: "string list \<Rightarrow> string" where
  "filepath_Join = path_Join"

definition filepath_Dir :: "string \<Rightarrow> string" where
  "filepath_Dir p = filepath_Clean (fst (path_Split p))"

section \<open>The array-to-tree converter with the namespace filter\<close>

text \<open>
  \<^verbatim>\<open>vault-convert-backend-consul-filesystem\<close>, the \<^verbatim>\<open>Converter\<close> that filters by
  \<^verbatim>\<open>keyHasPrefix\<close> and strips the prefix. What the program does to the world goes
  through three calls, which the model takes as parameters over an arbitrary file
  system state \<open>'fs\<close>: \<^verbatim>\<open>os.MkdirAll\<close>, \<^verbatim>\<open>os.OpenFile\<close> with
  \<^verbatim>\<open>O_WRONLY|O_CREATE|O_TRUNC\<close>, and the JSON encoder writing one entry to the open
  file. Each returns its error, if any, and the new state. The deferred
  \<^verbatim>\<open>f.Close()\<close> drops its result and is left out.

  The field \<open>input\<close> is the JSON decoder positioned inside the array: the list of
  what \<^verbatim>\<open>Decode\<close> will return for each remaining element, an error or an entry;
  \<^verbatim>\<open>More\<close> is true while the list is not empty. \<^verbatim>\<open>NewConverter\<close> returns the
  struct with \<open>count = 0\<close> and \<open>firstErr = None\<close>.
\<close>

record 'fs os_ops =
  os_MkdirAll :: "string \<Rightarrow> 'fs \<Rightarrow> error option \<times> 'fs"
  os_OpenFile :: "string \<Rightarrow> 'fs \<Rightarrow> error option \<times> 'fs"
  json_Encode :: "string \<Rightarrow> vault_Entry \<Rightarrow> 'fs \<Rightarrow> error option \<times> 'fs"

record Converter =
  input :: "(error + consul_Entry) list"
  outputRootPath :: string
  keyPrefix :: string
  count :: "64 word"
  firstErr :: "error option"

definition Err :: "Converter \<Rightarrow> error option" where
  "Err c = firstErr c"

definition setErr :: "error \<Rightarrow> Converter \<Rightarrow> Converter" where
  "setErr err c = (if firstErr c = None then c\<lparr>firstErr := Some err\<rparr> else c)"

text \<open>\<^verbatim>\<open>openFile\<close> returns the open file, which the model identifies with its path.\<close>

definition openFile ::
  "'fs os_ops \<Rightarrow> string \<Rightarrow> string \<Rightarrow> 'fs \<Rightarrow> (error + string) \<times> 'fs" where
  "openFile os root key fs =
     (let (kdir, kbase) = path_Split key;
          p = filepath_Join [root, kdir, ''_'' @ kbase]
      in case os_MkdirAll os (filepath_Dir p) fs of
           (Some err, fs1) \<Rightarrow> (Inl err, fs1)
         | (None, fs1) \<Rightarrow>
             (case os_OpenFile os p fs1 of
                (Some err, fs2) \<Rightarrow> (Inl err, fs2)
              | (None, fs2) \<Rightarrow> (Inr p, fs2)))"

definition convert ::
  "'fs os_ops \<Rightarrow> Converter \<Rightarrow> 'fs \<Rightarrow> error option \<times> Converter \<times> 'fs" where
  "convert os c fs =
     (case input c of
        [] \<Rightarrow> (Some EOF, c, fs)
      | Inl err # rest \<Rightarrow> (Some err, c\<lparr>input := rest\<rparr>, fs)
      | Inr consulEntry # rest \<Rightarrow>
          (let c1 = c\<lparr>input := rest\<rparr> in
           if \<not> keyHasPrefix (consul_Key consulEntry) (keyPrefix c1) then (None, c1, fs)
           else case convertEntry_cf consulEntry (keyPrefix c1) of
                  Inl err \<Rightarrow> (Some err, c1, fs)
                | Inr vaultEntry \<Rightarrow>
                    (case openFile os (outputRootPath c1) (vault_Key vaultEntry) fs of
                       (Inl err, fs1) \<Rightarrow> (Some err, c1, fs1)
                     | (Inr f, fs1) \<Rightarrow>
                         (case json_Encode os f vaultEntry fs1 of
                            (Some err, fs2) \<Rightarrow> (Some err, c1, fs2)
                          | (None, fs2) \<Rightarrow> (None, c1, fs2)))))"

definition Convert ::
  "'fs os_ops \<Rightarrow> Converter \<Rightarrow> 'fs \<Rightarrow> bool \<times> Converter \<times> 'fs" where
  "Convert os c fs =
     (if input c = [] then (False, c, fs)
      else let c1 = c\<lparr>count := count c + 1\<rparr> in
           case convert os c1 fs of
             (Some err, c2, fs2) \<Rightarrow>
               (False, setErr (WhileProcessingEntry (count c2) err) c2, fs2)
           | (None, c2, fs2) \<Rightarrow> (True, c2, fs2))"

text \<open>
  \<^verbatim>\<open>ConvertAll\<close> is the loop \<^verbatim>\<open>for c.Convert() {}\<close> followed by \<^verbatim>\<open>c.Err()\<close>. It
  terminates because every successful \<^verbatim>\<open>Convert\<close> consumes one element of the
  input.
\<close>

function ConvertAll ::
  "'fs os_ops \<Rightarrow> Converter \<Rightarrow> 'fs \<Rightarrow> error option \<times> Converter \<times> 'fs" where
  "ConvertAll os c fs =
     (case Convert os c fs of
        (True, c', fs') \<Rightarrow> ConvertAll os c' fs'
      | (False, c', fs') \<Rightarrow> (Err c', c', fs'))"
  by pat_completeness auto
termination
proof (relation "measure (\<lambda>(os, c, fs). length (input c))", goal_cases)
  case 1
  show ?case by simp
next
  case prems: (2 os c fs x y c' fs')
  from prems have cv: "Convert os c fs = (True, c', fs')"
    by (metis (full_types))
  then have ne: "input c \<noteq> []"
    by (auto simp: Convert_def split: if_splits)
  from cv ne have "convert os (c\<lparr>count := count c + 1\<rparr>) fs = (None, c', fs')"
    by (auto simp: Convert_def Let_def split: option.splits prod.splits)
  with ne have "length (input c') < length (input c)"
    by (auto simp: convert_def Let_def
        split: list.splits sum.splits prod.splits option.splits if_splits)
  then show ?case by simp
qed

declare ConvertAll.simps [simp del]

text \<open>
  A file system for running the converter on examples: an association list from the
  path of a file to the entries encoded into it. Directories are implicit and no
  call fails.
\<close>

fun fs_put :: "string \<Rightarrow> 'v \<Rightarrow> (string \<times> 'v) list \<Rightarrow> (string \<times> 'v) list" where
  "fs_put p v [] = [(p, v)]"
| "fs_put p v ((q, w) # fs) = (if p = q then (p, v) # fs else (q, w) # fs_put p v fs)"

definition fs_get :: "string \<Rightarrow> (string \<times> 'v list) list \<Rightarrow> 'v list" where
  "fs_get p fs = (case map_of fs p of None \<Rightarrow> [] | Some es \<Rightarrow> es)"

definition mem_os :: "(string \<times> vault_Entry list) list os_ops" where
  "mem_os = \<lparr> os_MkdirAll = (\<lambda>d fs. (None, fs)),
              os_OpenFile = (\<lambda>p fs. (None, fs_put p [] fs)),
              json_Encode = (\<lambda>p e fs. (None, fs_put p (fs_get p fs @ [e]) fs)) \<rparr>"

definition demo_Converter :: Converter where
  "demo_Converter = \<lparr> input = [], outputRootPath = ''out'', keyPrefix = ''vault'',
                       count = 0, firstErr = None \<rparr>"

section \<open>The validating array-to-tree converters\<close>











section \<open>The tree-to-array converter\<close>

text \<open>
  \<^verbatim>\<open>vault-convert-backend-filesystem-consul\<close>. The Vault file backend is a library:
  the model takes its two calls as parameters. \<^verbatim>\<open>List(prefix)\<close> returns the names
  in a directory, a sub-directory with a trailing slash; \<^verbatim>\<open>Get(key)\<close> returns the
  entry, or nil where there is none. The tree is quiesced, so both are functions.
\<close>

record backend =
  be_List :: "string \<Rightarrow> error + string list"
  be_Get :: "string \<Rightarrow> error + vault_Entry option"

text \<open>
  \<^verbatim>\<open>filesystemWalker.walk\<close> sends every key it finds on the channel \<^verbatim>\<open>w.keys\<close> and
  returns an error or nil. The model returns the keys sent, in the order of sending,
  with that error. \<open>walk_keys\<close> is the loop over the sorted listing. The
  recursion follows the listings of the backend, which the model does not know to
  be a finite tree: the first argument bounds the depth. The result \<open>None\<close> says
  that the walk does not return: the bound was reached, or the test
  \<^verbatim>\<open>k[len(k)-1:] == "/"\<close> met an empty name, where the slice expression panics;
  the walk runs in a goroutine of its own, so the panic ends the program with no
  deferred call of \<^verbatim>\<open>convert\<close> run. \<^verbatim>\<open>sort.Strings\<close> orders by bytes, as the
  order on \<^typ>\<open>string\<close> does.
\<close>

fun walk :: "nat \<Rightarrow> backend \<Rightarrow> string \<Rightarrow> (string list \<times> error option) option"
  and walk_keys :: "nat \<Rightarrow> backend \<Rightarrow> string \<Rightarrow> string list \<Rightarrow> (string list \<times> error option) option"
where
  "walk 0 b prefix = None"
| "walk (Suc n) b prefix =
     (case be_List b prefix of
        Inl err \<Rightarrow> Some ([], Some err)
      | Inr keys \<Rightarrow> walk_keys n b prefix (sort keys))"
| "walk_keys n b prefix [] = Some ([], None)"
| "walk_keys n b prefix (k # ks) =
     (if k = [] then None
      else let p = path_Join [prefix, k] in
        if last k = CHR ''/'' then
          (case walk n b p of
             None \<Rightarrow> None
           | Some (sent, Some err) \<Rightarrow> Some (sent, Some err)
           | Some (sent, None) \<Rightarrow>
               (case walk_keys n b prefix ks of
                  None \<Rightarrow> None
                | Some (sent', err) \<Rightarrow> Some (sent @ sent', err)))
        else
          (case walk_keys n b prefix ks of
             None \<Rightarrow> None
           | Some (sent', err) \<Rightarrow> Some (p # sent', err)))"

text \<open>
  The walk runs in a goroutine that closes the channel when it returns;
  \<^verbatim>\<open>Next\<close> receives from the channel and reports \<^verbatim>\<open>w.err\<close> once the channel is
  closed and empty. A channel delivers in the order of sending, so what the
  converter receives is the sequence of keys sent, then the closed channel. The
  walker is modelled by the keys not yet received and the error of the walk.
\<close>

record filesystemWalker =
  w_keys :: "string list"
  w_err :: "error option"

definition newFilesystemWalker :: "nat \<Rightarrow> backend \<Rightarrow> string \<Rightarrow> filesystemWalker option" where
  "newFilesystemWalker fuel b root =
     (case walk fuel b root of
        None \<Rightarrow> None
      | Some (sent, err) \<Rightarrow> Some \<lparr> w_keys = sent, w_err = err \<rparr>)"

definition Next :: "filesystemWalker \<Rightarrow> (string \<times> error option) \<times> filesystemWalker" where
  "Next w =
     (case w_keys w of
        k # ks \<Rightarrow> ((k, None), w\<lparr>w_keys := ks\<rparr>)
      | [] \<Rightarrow> (([], w_err w), w))"

record filesystemBackend =
  fb_backend :: backend
  fb_walker :: filesystemWalker

text \<open>
  The output file is a value of an arbitrary type \<open>'f\<close>; opening, writing and
  closing it, and the two JSON calls of \<^verbatim>\<open>WriteEntry\<close>, are parameters.
  \<^verbatim>\<open>file_Write\<close> returns the number of bytes written and an error, as
  \<^verbatim>\<open>io.Writer\<close> does. \<open>flush\<close> follows \<^verbatim>\<open>bytes.Buffer.WriteTo\<close>: the bytes written
  leave the buffer, a write of fewer bytes without an error is a short write, and a
  writer that reports more bytes than it was given makes \<^verbatim>\<open>WriteTo\<close> panic, which
  is the result \<open>None\<close> of \<open>flush\<close> and of the functions that call it.
\<close>

record 'f consulBackend =
  cb_file :: 'f
  cb_buffer :: string
  cb_keyPrefix :: string

record 'f fc_env =
  NewFileBackend :: "string \<Rightarrow> error + backend"
  os_OpenFile_w :: "string \<Rightarrow> error + 'f"
  file_Write :: "string \<Rightarrow> 'f \<Rightarrow> (nat \<times> error option) \<times> 'f"
  file_Close :: "'f \<Rightarrow> error option \<times> 'f"
  json_Marshal :: "consul_Entry \<Rightarrow> error + string"
  json_Indent :: "string \<Rightarrow> error + string"

definition openFilesystemBackend :: "'f fc_env \<Rightarrow> nat \<Rightarrow> string \<Rightarrow> (error + filesystemBackend) option" where
  "openFilesystemBackend env fuel backendPath =
     (case NewFileBackend env backendPath of
        Inl err \<Rightarrow> Some (Inl err)
      | Inr b \<Rightarrow>
          (case newFilesystemWalker fuel b [] of
             None \<Rightarrow> None
           | Some w \<Rightarrow> Some (Inr \<lparr> fb_backend = b, fb_walker = w \<rparr>)))"

definition fb_Close :: "filesystemBackend \<Rightarrow> error option" where
  "fb_Close be = None"

definition ReadEntry :: "filesystemBackend \<Rightarrow> (error + vault_Entry option) \<times> filesystemBackend" where
  "ReadEntry be =
     (case Next (fb_walker be) of
        ((key, err), w) \<Rightarrow>
          (let be1 = be\<lparr>fb_walker := w\<rparr> in
           case err of
             Some e \<Rightarrow> (Inl e, be1)
           | None \<Rightarrow> if key = [] then (Inl EOF, be1)
                     else (be_Get (fb_backend be1) key, be1)))"

definition writeHeader :: "'f consulBackend \<Rightarrow> error option \<times> 'f consulBackend" where
  "writeHeader be = (None, be\<lparr>cb_buffer := cb_buffer be @ [CHR ''['', CHR 0x0A]\<rparr>)"

definition writeTrailer :: "'f consulBackend \<Rightarrow> error option \<times> 'f consulBackend" where
  "writeTrailer be =
     (let l = length (cb_buffer be);
          be1 = (if l \<ge> 2 then be\<lparr>cb_buffer := take (l - 2) (cb_buffer be)\<rparr> else be)
      in (None, be1\<lparr>cb_buffer := cb_buffer be1 @ [CHR 0x0A, CHR '']'', CHR 0x0A]\<rparr>))"

definition flush :: "'f fc_env \<Rightarrow> 'f consulBackend \<Rightarrow> (error option \<times> 'f consulBackend) option" where
  "flush env be =
     (if length (cb_buffer be) > 0 then
        (case file_Write env (cb_buffer be) (cb_file be) of
           ((m, e), f) \<Rightarrow>
             if m > length (cb_buffer be) then None
             else let be1 = be\<lparr>cb_file := f, cb_buffer := drop m (cb_buffer be)\<rparr> in
               case e of
                 Some err \<Rightarrow> Some (Some err, be1)
               | None \<Rightarrow> if m \<noteq> length (cb_buffer be) then Some (Some (ErrorString ''short write''), be1)
                         else Some (None, be1\<lparr>cb_buffer := []\<rparr>))
      else Some (None, be))"

definition WriteEntry ::
  "'f fc_env \<Rightarrow> consul_Entry \<Rightarrow> 'f consulBackend \<Rightarrow> (error option \<times> 'f consulBackend) option" where
  "WriteEntry env entry be =
     (case flush env be of
        None \<Rightarrow> None
      | Some (Some err, be1) \<Rightarrow> Some (Some err, be1)
      | Some (None, be1) \<Rightarrow>
          (case json_Marshal env entry of
             Inl err \<Rightarrow> Some (Some err, be1)
           | Inr compacted \<Rightarrow>
               (let be2 = be1\<lparr>cb_buffer := cb_buffer be1 @ [CHR 0x09]\<rparr> in
                case json_Indent env compacted of
                  Inl err \<Rightarrow> Some (Some err, be2)
                | Inr indented \<Rightarrow>
                    Some (None, be2\<lparr>cb_buffer := cb_buffer be2 @ indented @ [CHR '','', CHR 0x0A]\<rparr>))))"

text \<open>
  \<^verbatim>\<open>consulBackend.Close\<close> returns at the first error: the call of
  \<^verbatim>\<open>be.file.Close\<close> is reached only when the trailer was written and flushed.
\<close>

definition cb_Close :: "'f fc_env \<Rightarrow> 'f consulBackend \<Rightarrow> (error option \<times> 'f consulBackend) option" where
  "cb_Close env be =
     (case writeTrailer be of
        (Some err, be1) \<Rightarrow> Some (Some err, be1)
      | (None, be1) \<Rightarrow>
          (case flush env be1 of
             None \<Rightarrow> None
           | Some (Some err, be2) \<Rightarrow> Some (Some err, be2)
           | Some (None, be2) \<Rightarrow>
               (case file_Close env (cb_file be2) of
                  (e, f) \<Rightarrow> Some (e, be2\<lparr>cb_file := f\<rparr>))))"

definition openConsulBackend :: "'f fc_env \<Rightarrow> string \<Rightarrow> string \<Rightarrow> error + 'f consulBackend" where
  "openConsulBackend env backendPath consulPath =
     (let keyPrefix = path_Clean consulPath in
      if keyPrefix = ''/'' \<or> keyPrefix = ''.'' then Inl (InvalidConsulPath consulPath)
      else case os_OpenFile_w env backendPath of
             Inl err \<Rightarrow> Inl err
           | Inr f \<Rightarrow>
               (let be = \<lparr> cb_file = f, cb_buffer = [], cb_keyPrefix = keyPrefix \<rparr> in
                case writeHeader be of
                  (Some err, be1) \<Rightarrow> Inl err
                | (None, be1) \<Rightarrow> Inr be1))"

text \<open>
  The loop labelled \<^verbatim>\<open>conversion\<close> of \<^verbatim>\<open>convert\<close>. It passes the raw
  \<^verbatim>\<open>consulPath\<close> to \<^verbatim>\<open>convertEntry\<close>. A nil entry from \<^verbatim>\<open>Get\<close> is dereferenced
  there, which panics: the loop does not return, the result is \<open>None\<close>. Every
  iteration receives one key, which bounds the loop.
\<close>

function conversion ::
  "'f fc_env \<Rightarrow> string \<Rightarrow> filesystemBackend \<Rightarrow> 'f consulBackend
     \<Rightarrow> (error option \<times> 'f consulBackend) option" where
  "conversion env consulPath fb cb =
     (case ReadEntry fb of
        (Inl readError, fb1) \<Rightarrow>
          if readError = EOF then Some (None, cb) else Some (Some readError, cb)
      | (Inr None, fb1) \<Rightarrow> None
      | (Inr (Some ve), fb1) \<Rightarrow>
          (case convertEntry_fc ve consulPath of
             Inl conversionError \<Rightarrow> Some (Some conversionError, cb)
           | Inr ce \<Rightarrow>
               (case WriteEntry env ce cb of
                  None \<Rightarrow> None
                | Some (Some writeError, cb1) \<Rightarrow> Some (Some writeError, cb1)
                | Some (None, cb1) \<Rightarrow> conversion env consulPath fb1 cb1)))"
  by pat_completeness auto
termination
  by (relation "measure (\<lambda>(env, consulPath, fb, cb). length (w_keys (fb_walker fb)))")
     (auto simp: ReadEntry_def Next_def Let_def
        split: list.splits option.splits if_splits prod.splits)

declare conversion.simps [simp del]

text \<open>
  \<^verbatim>\<open>convert\<close> with its two deferred closures, which run in reverse order on every
  return after the resource was opened: each calls \<^verbatim>\<open>Close\<close> and stores the error
  only if the named result \<^verbatim>\<open>err\<close> is still nil. The result is the error and the
  output file, if it was opened; it is \<open>None\<close> when \<^verbatim>\<open>convert\<close> does not return,
  because the walk does not or because the program ends in a panic. The program has
  two functions \<^verbatim>\<open>convert\<close>; this one is \<open>fc_convert\<close>.
\<close>

definition deferred_Close :: "error option \<Rightarrow> error option \<Rightarrow> error option" where
  "deferred_Close closeError err = (if closeError \<noteq> None \<and> err = None then closeError else err)"

definition fc_convert ::
  "'f fc_env \<Rightarrow> nat \<Rightarrow> string \<Rightarrow> string \<Rightarrow> string \<Rightarrow> (error option \<times> 'f option) option" where
  "fc_convert env fuel inputPath outputPath consulPath =
     (case openFilesystemBackend env fuel inputPath of
        None \<Rightarrow> None
      | Some (Inl openError) \<Rightarrow> Some (Some openError, None)
      | Some (Inr fb) \<Rightarrow>
          (case openConsulBackend env outputPath consulPath of
             Inl openError \<Rightarrow> Some (deferred_Close (fb_Close fb) (Some openError), None)
           | Inr cb \<Rightarrow>
               (case conversion env consulPath fb cb of
                  None \<Rightarrow> None
                | Some (err, cb1) \<Rightarrow>
                    (case cb_Close env cb1 of
                       None \<Rightarrow> None
                     | Some (closeError, cb2) \<Rightarrow>
                         Some (deferred_Close (fb_Close fb) (deferred_Close closeError err),
                               Some (cb_file cb2))))))"

text \<open>
  An environment for running the converter on examples. The output file is the
  string of the bytes written to it; every write is complete and nothing fails.
  \<open>demo_Marshal\<close> writes an entry as \<^verbatim>\<open>json.Marshal\<close> does when its flags are zero
  and its strings need no escape, and \<open>indent_flat\<close> lays such an object out as
  \<^verbatim>\<open>json.Indent\<close> does with the prefix and the indentation of \<^verbatim>\<open>WriteEntry\<close>: its
  first argument says whether the text read so far ends inside a string, which is
  copied as it is. The backend is given by the listing of each directory and the
  entry of each key.
\<close>

definition quoted :: "string \<Rightarrow> string" where
  "quoted s = CHR 0x22 # s @ [CHR 0x22]"

definition demo_Marshal :: "consul_Entry \<Rightarrow> error + string" where
  "demo_Marshal e =
     Inr (''{'' @ quoted ''key'' @ '':'' @ quoted (consul_Key e) @ '','' @ quoted ''flags'' @ '':0,''
          @ quoted ''value'' @ '':'' @ quoted (consul_Value e) @ ''}'')"

fun indent_flat :: "bool \<Rightarrow> string \<Rightarrow> string" where
  "indent_flat q [] = []"
| "indent_flat q (c # cs) =
     (if c = CHR 0x22 then c # indent_flat (\<not> q) cs
      else if q then c # indent_flat q cs
      else (if c = CHR ''{'' then [c, CHR 0x0A, CHR 0x09, CHR 0x09]
            else if c = CHR '','' then [c, CHR 0x0A, CHR 0x09, CHR 0x09]
            else if c = CHR '':'' then [c, CHR '' '']
            else if c = CHR ''}'' then [CHR 0x0A, CHR 0x09, c]
            else [c]) @ indent_flat q cs)"

definition demo_backend :: "(string \<times> string list) list \<Rightarrow> (string \<times> vault_Entry) list \<Rightarrow> backend" where
  "demo_backend dirs files =
     \<lparr> be_List = (\<lambda>p. case map_of dirs p of None \<Rightarrow> Inr [] | Some names \<Rightarrow> Inr names),
       be_Get = (\<lambda>k. Inr (map_of files k)) \<rparr>"

definition demo_env :: "(string \<times> string list) list \<Rightarrow> (string \<times> vault_Entry) list \<Rightarrow> string fc_env" where
  "demo_env dirs files =
     \<lparr> NewFileBackend = (\<lambda>p. Inr (demo_backend dirs files)),
       os_OpenFile_w = (\<lambda>p. Inr []),
       file_Write = (\<lambda>data f. ((length data, None), f @ data)),
       file_Close = (\<lambda>f. (None, f)),
       json_Marshal = demo_Marshal,
       json_Indent = (\<lambda>s. Inr (indent_flat False s)) \<rparr>"

definition tree_dirs :: "(string \<times> string list) list" where
  "tree_dirs = [([], [''b/'', ''a/'']), (''a'', [''2'', ''1'']), (''b'', [''1''])]"

definition tree_files :: "(string \<times> vault_Entry) list" where
  "tree_files = [(''a/1'', \<lparr>vault_Key = ''a/1'', vault_Value = [0x61]\<rparr>),
                 (''a/2'', \<lparr>vault_Key = ''a/2'', vault_Value = [0x62]\<rparr>),
                 (''b/1'', \<lparr>vault_Key = ''b/1'', vault_Value = [0x63]\<rparr>)]"



text \<open>
  Notions used to state the claims: the text of one entry in the output of the
  example environment; what one name of a listing contributes to the walk, the key
  of a file or all the keys sent from a sub-directory; and the first error of a
  sequence of errors that may be nil.
\<close>

definition render :: "consul_Entry \<Rightarrow> string" where
  "render e = (case demo_Marshal e of Inl err \<Rightarrow> [] | Inr compacted \<Rightarrow> indent_flat False compacted)"

definition visit :: "nat \<Rightarrow> backend \<Rightarrow> string \<Rightarrow> string \<Rightarrow> string list" where
  "visit n b prefix k =
     (if last k = CHR ''/''
      then (case walk n b (path_Join [prefix, k]) of None \<Rightarrow> [] | Some (sent, err) \<Rightarrow> sent)
      else [path_Join [prefix, k]])"

fun first_error :: "error option list \<Rightarrow> error option" where
  "first_error [] = None"
| "first_error (None # es) = first_error es"
| "first_error (Some e # es) = Some e"

section \<open>The stepped walker\<close>

text \<open>
  The \<^verbatim>\<open>Walker\<close> built on \<^verbatim>\<open>filepath.Walk\<close>, with its goroutine. Of an
  \<^verbatim>\<open>os.FileInfo\<close> the walker reads the mode only. \<^verbatim>\<open>filepath.Walk\<close> is a library:
  the model is given the visits it makes as long as \<^verbatim>\<open>walkFn\<close> returns nil, each a
  path, its info and the error of reading it, and stops at the first visit for
  which \<^verbatim>\<open>walkFn\<close> returns an error.
\<close>

record FileInfo =
  Mode :: "32 word"

definition os_ModeType :: "32 word" where
  "os_ModeType = 0x8F280000"

record WalkResult =
  Path :: string
  Info :: FileInfo

type_synonym visit = "string \<times> FileInfo \<times> error option"

text \<open>
  The state shared by the goroutine and the caller: the buffered channel
  \<^verbatim>\<open>results\<close> of capacity 10, whether it is closed, \<^verbatim>\<open>w.err\<close>, whether the
  channel \<^verbatim>\<open>stop\<close> is closed and the flag \<^verbatim>\<open>stopped\<close>; and the place of the
  goroutine, which is between two calls of \<^verbatim>\<open>walkFn\<close>, or in the \<^verbatim>\<open>select\<close> that
  sends a result, or has closed the channel and returned.
\<close>

datatype producer = Walking | Selecting WalkResult | Exited

record Walker =
  pending :: "visit list"
  goroutine :: producer
  results :: "WalkResult list"
  results_closed :: bool
  walk_err :: "error option"
  stop_closed :: bool
  stopped :: bool

definition NewWalker :: "visit list \<Rightarrow> Walker" where
  "NewWalker visits =
     \<lparr> pending = visits, goroutine = Walking, results = [], results_closed = False,
       walk_err = None, stop_closed = False, stopped = False \<rparr>"

text \<open>
  \<^verbatim>\<open>walkFn\<close> up to its second \<^verbatim>\<open>select\<close>: it returns an error or nil, or reaches
  the \<^verbatim>\<open>select\<close> with the result to send. \<open>goroutine_exit\<close> is the end of the
  goroutine of \<^verbatim>\<open>NewWalker\<close>, with the error \<^verbatim>\<open>filepath.Walk\<close> returned.
\<close>

datatype walkFn_result = Return "error option" | Select WalkResult

definition walkFn :: "Walker \<Rightarrow> visit \<Rightarrow> walkFn_result" where
  "walkFn w v =
     (case v of (path, info, err) \<Rightarrow>
        (case err of
           Some e \<Rightarrow> Return (Some e)
         | None \<Rightarrow>
             if stop_closed w then Return (Some WalkStopped)
             else if Mode info AND os_ModeType \<noteq> 0 then Return None
             else Select \<lparr> Path = path, Info = info \<rparr>))"

definition goroutine_exit :: "error option \<Rightarrow> Walker \<Rightarrow> Walker" where
  "goroutine_exit err w =
     (let w1 = (if err \<noteq> None \<and> err \<noteq> Some WalkStopped then w\<lparr>walk_err := err\<rparr> else w)
      in w1\<lparr>results_closed := True, goroutine := Exited\<rparr>)"

text \<open>
  \<^verbatim>\<open>Next\<close> and \<^verbatim>\<open>Stop\<close> of the Walker. \<^verbatim>\<open>Next\<close> blocks, with the value \<open>None\<close>,
  while the channel is empty and open.
\<close>

definition Walker_Next :: "Walker \<Rightarrow> ((WalkResult option \<times> error option) \<times> Walker) option" where
  "Walker_Next w =
     (case results w of
        r # rs \<Rightarrow> Some ((Some r, None), w\<lparr>results := rs\<rparr>)
      | [] \<Rightarrow> if results_closed w then Some ((None, walk_err w), w) else None)"

definition Walker_Stop :: "Walker \<Rightarrow> Walker" where
  "Walker_Stop w = (if stopped w then w else w\<lparr>stop_closed := True, stopped := True\<rparr>)"

text \<open>
  An interleaving is a list of events: the goroutine handles the next visit, its
  \<^verbatim>\<open>select\<close> takes the send or the stop case, the caller calls \<^verbatim>\<open>Next\<close> or
  \<^verbatim>\<open>Stop\<close>. \<open>step\<close> is \<open>None\<close> when the event cannot happen in the state: the
  goroutine is elsewhere, the channel is full, \<^verbatim>\<open>stop\<close> is open, \<^verbatim>\<open>Next\<close> blocks.
  \<open>run\<close> collects what the calls of \<^verbatim>\<open>Next\<close> return.
\<close>

datatype event = Walk_step | Select_send | Select_stop | Call_Next | Call_Stop

fun step :: "event \<Rightarrow> Walker \<Rightarrow> ((WalkResult option \<times> error option) list \<times> Walker) option" where
  "step Walk_step w =
     (if goroutine w \<noteq> Walking then None
      else case pending w of
             [] \<Rightarrow> Some ([], goroutine_exit None w)
           | v # rest \<Rightarrow>
               (case walkFn w v of
                  Return (Some e) \<Rightarrow> Some ([], goroutine_exit (Some e) w)
                | Return None \<Rightarrow> Some ([], w\<lparr>pending := rest\<rparr>)
                | Select r \<Rightarrow> Some ([], w\<lparr>pending := rest, goroutine := Selecting r\<rparr>)))"
| "step Select_send w =
     (case goroutine w of
        Selecting r \<Rightarrow>
          if length (results w) < 10
          then Some ([], w\<lparr>results := results w @ [r], goroutine := Walking\<rparr>)
          else None
      | _ \<Rightarrow> None)"
| "step Select_stop w =
     (case goroutine w of
        Selecting r \<Rightarrow>
          if stop_closed w then Some ([], goroutine_exit (Some WalkStopped) w) else None
      | _ \<Rightarrow> None)"
| "step Call_Next w =
     (case Walker_Next w of
        None \<Rightarrow> None
      | Some (ret, w') \<Rightarrow> Some ([ret], w'))"
| "step Call_Stop w = Some ([], Walker_Stop w)"

fun run :: "event list \<Rightarrow> Walker \<Rightarrow> ((WalkResult option \<times> error option) list \<times> Walker) option" where
  "run [] w = Some ([], w)"
| "run (ev # evs) w =
     (case step ev w of
        None \<Rightarrow> None
      | Some (rets, w1) \<Rightarrow>
          (case run evs w1 of
             None \<Rightarrow> None
           | Some (rets', w2) \<Rightarrow> Some (rets @ rets', w2)))"

text \<open>
  Notions used to state and prove the claim about the Walker: the results of the
  regular files among some visits; what \<^verbatim>\<open>Next\<close> has yet to return in a state, and
  the error it will report at the end, if the walk is not stopped before; the states
  that a run can reach.
\<close>

definition regular :: "visit list \<Rightarrow> WalkResult list" where
  "regular vs =
     map (\<lambda>(path, info, err). \<lparr> Path = path, Info = info \<rparr>)
       (filter (\<lambda>(path, info, err). Mode info AND os_ModeType = 0) vs)"

definition no_error :: "visit \<Rightarrow> bool" where
  "no_error v = (snd (snd v) = None)"

definition to_come :: "Walker \<Rightarrow> WalkResult list" where
  "to_come w =
     results w
     @ (case goroutine w of Selecting r \<Rightarrow> [r] | _ \<Rightarrow> [])
     @ (if goroutine w = Exited then [] else regular (takeWhile no_error (pending w)))"

definition final_error :: "Walker \<Rightarrow> error option" where
  "final_error w =
     (if goroutine w = Exited then walk_err w
      else case dropWhile no_error (pending w) of
             [] \<Rightarrow> None
           | v # vs \<Rightarrow> snd (snd v))"

definition coherent :: "Walker \<Rightarrow> bool" where
  "coherent w \<longleftrightarrow>
     (results_closed w \<longleftrightarrow> goroutine w = Exited)
     \<and> (goroutine w \<noteq> Exited \<longrightarrow> walk_err w = None)
     \<and> final_error w \<noteq> Some WalkStopped"

definition ok :: "WalkResult \<Rightarrow> WalkResult option \<times> error option" where
  "ok r = (Some r, None)"

definition demo_visits :: "visit list" where
  "demo_visits =
     [(''d'', \<lparr>Mode = 0x800001ED\<rparr>, None),
      (''d/a'', \<lparr>Mode = 0x180\<rparr>, None),
      (''d/b'', \<lparr>Mode = 0x180\<rparr>, None),
      (''d/c'', \<lparr>Mode = 0x800001C0\<rparr>, Some (SysError ''permission denied'')),
      (''d/e'', \<lparr>Mode = 0x180\<rparr>, None)]"

section \<open>Facts about Split and Join\<close>

lemma strings_Split_not_Nil: "strings_Split s sep \<noteq> []"
  by (induction s) (auto split: list.splits)

lemma strings_Join_Split: "strings_Join (strings_Split s sep) sep = s"
proof (induction s)
  case Nil
  show ?case by simp
next
  case (Cons c cs)
  obtain x xs where sp: "strings_Split cs sep = x # xs"
    using strings_Split_not_Nil [of cs sep] by (cases "strings_Split cs sep") auto
  show ?case
  proof (cases "c = sep")
    case True
    with Cons sp show ?thesis by simp
  next
    case False
    with Cons sp show ?thesis by (cases xs) auto
  qed
qed

lemma strings_Split_no_sep: "x \<in> set (strings_Split s sep) \<Longrightarrow> sep \<notin> set x"
proof (induction s arbitrary: x)
  case Nil
  then show ?case by simp
next
  case (Cons c cs)
  obtain y ys where sp: "strings_Split cs sep = y # ys"
    using strings_Split_not_Nil [of cs sep] by (cases "strings_Split cs sep") auto
  have y: "sep \<notin> set y" and ys: "\<forall>z \<in> set ys. sep \<notin> set z"
    using Cons.IH sp by auto
  from Cons.prems sp y ys show ?case
    by (auto split: if_splits)
qed

lemma strings_Split_append_sep:
  "sep \<notin> set a \<Longrightarrow> strings_Split (a @ sep # b) sep = a # strings_Split b sep"
  by (induction a) (auto split: list.splits)

lemma strings_Split_plain: "sep \<notin> set a \<Longrightarrow> strings_Split a sep = [a]"
  by (induction a) (auto split: list.splits)

lemma strings_Split_Join:
  "xs \<noteq> [] \<Longrightarrow> \<forall>x \<in> set xs. sep \<notin> set x \<Longrightarrow>
   strings_Split (strings_Join xs sep) sep = xs"
proof (induction xs sep rule: strings_Join.induct)
  case (1 sep)
  then show ?case by simp
next
  case (2 x sep)
  then show ?case by (simp add: strings_Split_plain)
next
  case (3 x y ys sep)
  then have "sep \<notin> set x" by simp
  then have "strings_Split (x @ sep # strings_Join (y # ys) sep) sep
             = x # strings_Split (strings_Join (y # ys) sep) sep"
    by (rule strings_Split_append_sep)
  with 3 show ?case by simp
qed

lemma segments_differ_iff:
  "segments_differ ke pe is \<longleftrightarrow> (\<exists>i \<in> set is. ke ! i \<noteq> pe ! i)"
  by (induction "is") auto

lemma segments_differ_upt:
  assumes "length pe \<le> length ke"
  shows "segments_differ ke pe [0 ..< length pe] \<longleftrightarrow> take (length pe) ke \<noteq> pe"
proof -
  have len: "length (take (length pe) ke) = length pe"
    using assms by simp
  have "take (length pe) ke = pe \<longleftrightarrow> (\<forall>i < length pe. take (length pe) ke ! i = pe ! i)"
    using len by (simp add: list_eq_iff_nth_eq)
  also have "\<dots> \<longleftrightarrow> (\<forall>i < length pe. ke ! i = pe ! i)"
    by simp
  finally have eq: "take (length pe) ke = pe \<longleftrightarrow> (\<forall>i < length pe. ke ! i = pe ! i)" .
  have "segments_differ ke pe [0 ..< length pe] \<longleftrightarrow> (\<exists>i < length pe. ke ! i \<noteq> pe ! i)"
    by (simp add: segments_differ_iff Bex_def)
  with eq show ?thesis by blast
qed


section \<open>Facts about the key prefix transform\<close>

lemma keyHasPrefix_iff:
  "keyHasPrefix key prefix \<longleftrightarrow>
   take (length (strings_Split prefix (CHR ''/''))) (strings_Split key (CHR ''/''))
     = strings_Split prefix (CHR ''/'')"
proof (cases "length (strings_Split key (CHR ''/'')) < length (strings_Split prefix (CHR ''/''))")
  case True
  then have "take (length (strings_Split prefix (CHR ''/''))) (strings_Split key (CHR ''/''))
               \<noteq> strings_Split prefix (CHR ''/'')"
    by (metis length_take min.absorb1 less_imp_le_nat less_irrefl)
  with True show ?thesis by (simp add: keyHasPrefix_def Let_def)
next
  case False
  then show ?thesis
    by (simp add: keyHasPrefix_def Let_def segments_differ_upt)
qed

lemma keyStripPrefix_eq:
  "keyStripPrefix key prefix =
     (if keyHasPrefix key prefix
      then strings_Join (drop (length (strings_Split prefix (CHR ''/'')))
                              (strings_Split key (CHR ''/''))) (CHR ''/'')
      else key)"
  by (simp add: keyStripPrefix_def keyHasPrefix_def Let_def strings_Join_Split)

lemma strings_Split_keyAddPrefix:
  assumes "prefix \<noteq> []"
  shows "strings_Split (keyAddPrefix key prefix) (CHR ''/'')
         = strings_Split prefix (CHR ''/'') @ strings_Split key (CHR ''/'')"
proof -
  have "strings_Split prefix (CHR ''/'') @ strings_Split key (CHR ''/'') \<noteq> []"
    by (simp add: strings_Split_not_Nil)
  moreover have "\<forall>x \<in> set (strings_Split prefix (CHR ''/'') @ strings_Split key (CHR ''/'')).
                   CHR ''/'' \<notin> set x"
    by (auto dest: strings_Split_no_sep)
  ultimately show ?thesis
    using assms by (simp add: keyAddPrefix_def Let_def strings_Split_Join)
qed

lemma keyHasPrefix_keyAddPrefix:
  "prefix \<noteq> [] \<Longrightarrow> keyHasPrefix (keyAddPrefix key prefix) prefix"
  by (simp add: keyHasPrefix_iff strings_Split_keyAddPrefix)

lemma keyStripPrefix_keyAddPrefix:
  "prefix \<noteq> [] \<Longrightarrow> keyStripPrefix (keyAddPrefix key prefix) prefix = key"
  by (simp add: keyStripPrefix_eq keyHasPrefix_keyAddPrefix strings_Split_keyAddPrefix
      strings_Join_Split)

section \<open>Facts about base64\<close>

lemma mask_0x3F: "(0x3F :: 64 word) = mask 6"
  by (simp add: mask_eq_exp_minus_1)

lemma unat_sextet_less: "unat (w AND (0x3F :: 64 word)) < 64"
proof -
  have "unat (w AND (0x3F :: 64 word)) = take_bit 6 (unat w)"
    unfolding mask_0x3F by (simp add: take_bit_eq_mask[symmetric] unsigned_take_bit_eq)
  also have "\<dots> < 2 ^ 6" by (rule take_bit_nat_less_exp)
  finally show ?thesis by simp
qed

lemma index_of_nth:
  "distinct xs \<Longrightarrow> i < length xs \<Longrightarrow> index_of (xs ! i) xs k = Some (k + i)"
proof (induction xs arbitrary: i k)
  case Nil
  then show ?case by simp
next
  case (Cons x xs)
  show ?case
  proof (cases i)
    case 0
    then show ?thesis by simp
  next
    case (Suc j)
    with Cons.prems have "xs ! j \<noteq> x" by auto
    with Cons Suc show ?thesis by simp
  qed
qed

lemma distinct_encodeStd: "distinct encodeStd"
  unfolding encodeStd_def by simp

lemma length_encodeStd: "length encodeStd = 64"
  unfolding encodeStd_def by simp

lemma decodeMap_encode_tab:
  assumes "unat v < 64"
  shows "decodeMap (encode_tab v) = ucast v"
proof -
  have "index_of (encodeStd ! unat v) encodeStd 0 = Some (0 + unat v)"
    using assms by (intro index_of_nth) (simp_all add: distinct_encodeStd length_encodeStd)
  then show ?thesis
    by (simp add: decodeMap_def encode_tab_def)
qed

lemma ucast_sextet_not_FF: "(ucast (w AND (0x3F :: 64 word)) :: byte) \<noteq> 0xFF"
proof
  assume "(ucast (w AND (0x3F :: 64 word)) :: byte) = 0xFF"
  then have "bit (ucast (w AND (0x3F :: 64 word)) :: byte) 7 = bit (0xFF :: byte) 7" by simp
  then show False
    unfolding mask_0x3F by (simp add: bit_simps)
qed

lemma decodeMap_sextet:
  "decodeMap (encode_tab (w AND 0x3F)) = ucast (w AND (0x3F :: 64 word))"
  by (rule decodeMap_encode_tab) (rule unat_sextet_less)

lemma decodeMap_padChar: "decodeMap (CHR ''='') = 0xFF"
  by (simp add: decodeMap_def encodeStd_def)

lemma suc_suc_diff: "2 \<le> n \<Longrightarrow> Suc (Suc (n - 2)) = n"
  by simp

lemma quantum_bytes_4:
  fixes a b c :: byte
  defines "val \<equiv> push_bit 16 (ucast a) OR push_bit 8 (ucast b) OR ucast c :: 64 word"
  shows "quantum_bytes [ucast (drop_bit 18 val AND 0x3F), ucast (drop_bit 12 val AND 0x3F),
                        ucast (drop_bit 6 val AND 0x3F), ucast (val AND 0x3F)] = [a, b, c]"
proof -
  let ?d = "push_bit 18 (ucast (ucast (drop_bit 18 val AND 0x3F) :: byte))
            OR push_bit 12 (ucast (ucast (drop_bit 12 val AND 0x3F) :: byte))
            OR push_bit 6 (ucast (ucast (drop_bit 6 val AND 0x3F) :: byte))
            OR ucast (ucast (val AND 0x3F) :: byte) :: 64 word"
  have a: "(ucast (drop_bit 16 ?d) :: byte) = a"
    unfolding val_def mask_0x3F
    by (rule bit_word_eqI) (auto simp add: bit_simps suc_suc_diff not_less dest: bit_imp_le_length)
  have b: "(ucast (drop_bit 8 ?d) :: byte) = b"
    unfolding val_def mask_0x3F
    by (rule bit_word_eqI) (auto simp add: bit_simps suc_suc_diff not_less dest: bit_imp_le_length)
  have c: "(ucast ?d :: byte) = c"
    unfolding val_def mask_0x3F
    by (rule bit_word_eqI) (auto simp add: bit_simps suc_suc_diff not_less dest: bit_imp_le_length)
  show ?thesis
    using a b c by (simp add: quantum_bytes_def dbuf_at_def Let_def)
qed

lemma quantum_bytes_3:
  fixes a b :: byte
  defines "val \<equiv> push_bit 16 (ucast a) OR push_bit 8 (ucast b) :: 64 word"
  shows "quantum_bytes [ucast (drop_bit 18 val AND 0x3F), ucast (drop_bit 12 val AND 0x3F),
                        ucast (drop_bit 6 val AND 0x3F)] = [a, b]"
proof -
  let ?d = "push_bit 18 (ucast (ucast (drop_bit 18 val AND 0x3F) :: byte))
            OR push_bit 12 (ucast (ucast (drop_bit 12 val AND 0x3F) :: byte))
            OR push_bit 6 (ucast (ucast (drop_bit 6 val AND 0x3F) :: byte)) :: 64 word"
  have a: "(ucast (drop_bit 16 ?d) :: byte) = a"
    unfolding val_def mask_0x3F
    by (rule bit_word_eqI) (auto simp add: bit_simps suc_suc_diff not_less dest: bit_imp_le_length)
  have b: "(ucast (drop_bit 8 ?d) :: byte) = b"
    unfolding val_def mask_0x3F
    by (rule bit_word_eqI) (auto simp add: bit_simps suc_suc_diff not_less dest: bit_imp_le_length)
  show ?thesis
    using a b by (simp add: quantum_bytes_def dbuf_at_def Let_def)
qed

lemma quantum_bytes_2:
  fixes a :: byte
  defines "val \<equiv> push_bit 16 (ucast a) :: 64 word"
  shows "quantum_bytes [ucast (drop_bit 18 val AND 0x3F), ucast (drop_bit 12 val AND 0x3F)] = [a]"
proof -
  let ?d = "push_bit 18 (ucast (ucast (drop_bit 18 val AND 0x3F) :: byte))
            OR push_bit 12 (ucast (ucast (drop_bit 12 val AND 0x3F) :: byte)) :: 64 word"
  have a: "(ucast (drop_bit 16 ?d) :: byte) = a"
    unfolding val_def mask_0x3F
    by (rule bit_word_eqI) (auto simp add: bit_simps suc_suc_diff not_less dest: bit_imp_le_length)
  show ?thesis
    using a by (simp add: quantum_bytes_def dbuf_at_def Let_def)
qed

lemma decode_sextet:
  "decode (encode_tab (w AND 0x3F) # src) dbuf =
     (if length dbuf = 3
      then emit (quantum_bytes (dbuf @ [ucast (w AND (0x3F :: 64 word))])) (decode src [])
      else decode src (dbuf @ [ucast (w AND (0x3F :: 64 word))]))"
  by (simp add: decodeMap_sextet ucast_sextet_not_FF Let_def)

lemma decode_pad1: "decode [padChar] [x, y, z] = Inr (quantum_bytes [x, y, z])"
  by (simp add: decodeMap_padChar padChar_def Let_def)

lemma decode_pad2: "decode [padChar, padChar] [x, y] = Inr (quantum_bytes [x, y])"
  by (simp add: decodeMap_padChar padChar_def Let_def)

lemma base64_roundtrip: "base64_DecodeString (base64_EncodeToString v) = Inr v"
  unfolding base64_DecodeString_def
proof (induction v rule: base64_EncodeToString.induct)
  case 1
  show ?case by simp
next
  case (2 a)
  show ?case
    by (simp only: base64_EncodeToString.simps Let_def decode_sextet decode_pad2 quantum_bytes_2
        list.size append.simps) simp
next
  case (3 a b)
  show ?case
    by (simp only: base64_EncodeToString.simps Let_def decode_sextet decode_pad1 quantum_bytes_3
        list.size append.simps) simp
next
  case (4 a b c src)
  have "decode (base64_EncodeToString (a # b # c # src)) []
        = emit [a, b, c] (decode (base64_EncodeToString src) [])"
    by (simp only: base64_EncodeToString.simps Let_def decode_sextet quantum_bytes_4
        list.size append.simps) (simp add: quantum_bytes_4 [simplified])
  with 4 show ?case by (simp add: emit_def)
qed

section \<open>Facts about the array-to-tree converter\<close>

lemma keyHasPrefix_self: "keyHasPrefix p p"
  by (simp add: keyHasPrefix_iff)

lemma keyStripPrefix_self: "keyStripPrefix p p = []"
  by (simp add: keyStripPrefix_eq keyHasPrefix_self)

lemma convert_skip:
  assumes "input c = Inr e # rest" "\<not> keyHasPrefix (consul_Key e) (keyPrefix c)"
  shows "convert os c fs = (None, c\<lparr>input := rest\<rparr>, fs)"
  using assms by (simp add: convert_def Let_def)

lemma convert_corrupt:
  assumes "input c = Inr e # rest" "keyHasPrefix (consul_Key e) (keyPrefix c)"
    "base64_DecodeString (consul_Value e) = Inl err"
  shows "convert os c fs = (Some err, c\<lparr>input := rest\<rparr>, fs)"
  using assms by (simp add: convert_def Let_def convertEntry_cf_def)

lemma convert_write:
  assumes "input c = Inr e # rest" "keyHasPrefix (consul_Key e) (keyPrefix c)"
    "base64_DecodeString (consul_Value e) = Inr v"
  shows "convert os c fs =
     (let ve = \<lparr> vault_Key = keyStripPrefix (consul_Key e) (keyPrefix c), vault_Value = v \<rparr> in
      case openFile os (outputRootPath c) (vault_Key ve) fs of
        (Inl err, fs1) \<Rightarrow> (Some err, c\<lparr>input := rest\<rparr>, fs1)
      | (Inr f, fs1) \<Rightarrow>
          (case json_Encode os f ve fs1 of
             (err, fs2) \<Rightarrow> (err, c\<lparr>input := rest\<rparr>, fs2)))"
  using assms
  by (auto simp add: convert_def Let_def convertEntry_cf_def split: prod.splits sum.splits option.splits)

lemma convert_frame:
  assumes "convert os c fs = (e, c', fs')" "input c = x # r"
  shows "convert os (c\<lparr>input := x # r'\<rparr>) fs = (e, c'\<lparr>input := r'\<rparr>, fs') \<and> input c' = r
         \<and> count c' = count c \<and> firstErr c' = firstErr c \<and> keyPrefix c' = keyPrefix c"
  using assms
  by (cases x)
     (auto simp add: convert_def Let_def split: prod.splits sum.splits option.splits if_splits)

lemma Convert_frame:
  assumes "Convert os c fs = (True, c', fs')" "input c = x # r"
  shows "Convert os (c\<lparr>input := x # r'\<rparr>) fs = (True, c'\<lparr>input := r'\<rparr>, fs') \<and> input c' = r
         \<and> count c' = count c + 1 \<and> firstErr c' = firstErr c \<and> keyPrefix c' = keyPrefix c"
proof -
  let ?c = "c\<lparr>count := count c + 1\<rparr>"
  obtain e c2 fs2 where cv: "convert os ?c fs = (e, c2, fs2)"
    by (metis prod_cases3)
  with assms have e: "e = None" and c2: "c2 = c'" and fs2: "fs2 = fs'"
    by (auto simp: Convert_def Let_def split: option.splits)
  have inp: "input ?c = x # r" using assms by simp
  have upd: "(c\<lparr>input := x # r'\<rparr>)\<lparr>count := count c + 1\<rparr> = ?c\<lparr>input := x # r'\<rparr>"
    by simp
  from convert_frame [OF cv inp, of r'] e c2 fs2 show ?thesis
    by (simp add: Convert_def Let_def upd)
qed

lemma Err_setErr: "Err (setErr err c) = Some (case firstErr c of None \<Rightarrow> err | Some e \<Rightarrow> e)"
  by (simp add: Err_def setErr_def split: option.splits)

lemma Convert_False_Err:
  assumes "Convert os c fs = (False, c', fs')" "input c \<noteq> []"
  shows "Err c' \<noteq> None"
  using assms
  by (auto simp: Convert_def Let_def Err_setErr split: option.splits prod.splits)

lemma ConvertAll_Nil: "input c = [] \<Longrightarrow> ConvertAll os c fs = (Err c, c, fs)"
  by (subst ConvertAll.simps) (simp add: Convert_def)

lemma ConvertAll_prefix:
  assumes "ConvertAll os c fs = (None, c1, fs1)"
  shows "ConvertAll os (c\<lparr>input := input c @ suffix\<rparr>) fs = ConvertAll os (c1\<lparr>input := suffix\<rparr>) fs1
         \<and> count c1 = count c + of_nat (length (input c)) \<and> firstErr c1 = firstErr c
         \<and> keyPrefix c1 = keyPrefix c"
  using assms
proof (induction "input c" arbitrary: c fs)
  case Nil
  then show ?case by (auto simp add: ConvertAll_Nil Err_def)
next
  case (Cons x pre)
  from Cons.hyps(2) have inp: "input c = x # pre" by simp
  obtain b c' fs' where cv: "Convert os c fs = (b, c', fs')"
    by (metis prod_cases3)
  show ?case
  proof (cases b)
    case False
    with cv inp have "Err c' \<noteq> None"
      using Convert_False_Err by fastforce
    moreover from cv False Cons.prems have "Err c' = None"
      by (subst (asm) ConvertAll.simps) auto
    ultimately show ?thesis by simp
  next
    case True
    from cv True have cvT: "Convert os c fs = (True, c', fs')" by simp
    note fr = Convert_frame [OF cvT inp]
    from fr have pre: "pre = input c'" by simp
    from cv True Cons.prems have run: "ConvertAll os c' fs' = (None, c1, fs1)"
      by (subst (asm) ConvertAll.simps) simp
    from Cons.hyps(1) [OF pre run] fr
    have ih: "ConvertAll os (c'\<lparr>input := pre @ suffix\<rparr>) fs' = ConvertAll os (c1\<lparr>input := suffix\<rparr>) fs1"
      and cnt: "count c1 = count c + 1 + of_nat (length pre)" and fe: "firstErr c1 = firstErr c"
      and kp: "keyPrefix c1 = keyPrefix c"
      by simp_all
    from fr [of "pre @ suffix"] have "Convert os (c\<lparr>input := (x # pre) @ suffix\<rparr>) fs = (True, c'\<lparr>input := pre @ suffix\<rparr>, fs')"
      by simp
    then have "ConvertAll os (c\<lparr>input := (x # pre) @ suffix\<rparr>) fs = ConvertAll os (c'\<lparr>input := pre @ suffix\<rparr>) fs'"
      by (subst ConvertAll.simps) simp
    with ih cnt fe kp inp show ?thesis by simp
  qed
qed

lemma strings_Split_append:
  "strings_Split (a @ sep # b) sep = strings_Split a sep @ strings_Split b sep"
proof (induction a)
  case Nil
  show ?case by simp
next
  case (Cons c cs)
  obtain x xs where sp: "strings_Split cs sep = x # xs"
    using strings_Split_not_Nil [of cs sep] by (cases "strings_Split cs sep") auto
  with Cons show ?case by simp
qed

lemma clean_elems_append:
  "clean_elems rooted (xs @ ys) out = clean_elems rooted ys (clean_elems rooted xs out)"
  by (induction rooted xs out rule: clean_elems.induct) auto

lemma strings_Join_snoc:
  "strings_Join (xs @ [x]) sep = (if xs = [] then x else strings_Join xs sep @ sep # x)"
  by (induction xs sep rule: strings_Join.induct) simp_all

lemma path_Split_snoc:
  assumes "CHR ''/'' \<notin> set b" "X = [] \<or> last X = CHR ''/''"
  shows "path_Split (X @ b) = (X, b)"
proof (cases "X = []")
  case True
  from assms(1) have tw: "takeWhile (\<lambda>c. c \<noteq> CHR ''/'') (rev b) = rev b"
    by (auto simp add: takeWhile_eq_all_conv)
  from assms(1) have dw: "dropWhile (\<lambda>c. c \<noteq> CHR ''/'') (rev b) = []"
    by auto
  show ?thesis
    unfolding path_Split_def True append_Nil tw dw by simp
next
  case False
  with assms obtain Y where X: "X = Y @ [CHR ''/'']"
    by (metis append_butlast_last_id)
  from assms(1) have tw: "takeWhile (\<lambda>c. c \<noteq> CHR ''/'') (rev b @ CHR ''/'' # rev Y) = rev b"
    by (subst takeWhile_append2) auto
  from assms(1) have dw: "dropWhile (\<lambda>c. c \<noteq> CHR ''/'') (rev b @ CHR ''/'' # rev Y) = CHR ''/'' # rev Y"
    by (subst dropWhile_append2) auto
  show ?thesis
    using tw dw by (simp add: path_Split_def X)
qed

lemma Join_underscore_shape:
  "\<exists>X. filepath_Join [root, [], ''_''] = X @ ''_'' \<and> (X = [] \<or> last X = CHR ''/'')"
proof (cases "root = []")
  case True
  then have "filepath_Join [root, [], ''_''] = [] @ ''_''"
    by (simp add: filepath_Join_def path_Clean_def)
  then show ?thesis by blast
next
  case False
  define rooted where "rooted = (hd root = CHR ''/'')"
  define out where "out = clean_elems rooted (strings_Split root (CHR ''/'')) []"
  have sp: "strings_Split (root @ CHR ''/'' # CHR ''/'' # ''_'') (CHR ''/'')
            = strings_Split root (CHR ''/'') @ [[], ''_'']"
    by (simp add: strings_Split_append)
  have ce: "clean_elems rooted (strings_Split root (CHR ''/'') @ [[], ''_'']) [] = out @ [''_'']"
    by (simp add: clean_elems_append out_def)
  have P: "filepath_Join [root, [], ''_''] =
           (if rooted then CHR ''/'' # strings_Join (out @ [''_'']) (CHR ''/'')
            else strings_Join (out @ [''_'']) (CHR ''/''))"
    using False sp ce
    by (cases root) (auto simp add: filepath_Join_def path_Clean_def Let_def rooted_def)
  show ?thesis
  proof (cases "out = []")
    case True
    with P have "filepath_Join [root, [], ''_''] = (if rooted then ''/'' else []) @ ''_''"
      by simp
    moreover have "(if rooted then ''/'' else []) = [] \<or> last (if rooted then ''/'' else []) = CHR ''/''"
      by simp
    ultimately show ?thesis by blast
  next
    case False
    with P have "filepath_Join [root, [], ''_'']
       = ((if rooted then ''/'' else []) @ strings_Join out (CHR ''/'') @ ''/'') @ ''_''"
      by (simp add: strings_Join_snoc)
    moreover have "last ((if rooted then ''/'' else []) @ strings_Join out (CHR ''/'') @ ''/'') = CHR ''/''"
      by simp
    ultimately show ?thesis by blast
  qed
qed

lemma base_of_Join_underscore: "snd (path_Split (filepath_Join [root, [], ''_''])) = ''_''"
proof -
  obtain X where "filepath_Join [root, [], ''_''] = X @ ''_''" "X = [] \<or> last X = CHR ''/''"
    using Join_underscore_shape by blast
  then show ?thesis by (simp add: path_Split_snoc)
qed

lemma clean_elems_proper:
  assumes "\<forall>e \<in> set out. e \<noteq> [] \<and> e \<noteq> ''.'' \<and> CHR ''/'' \<notin> set e"
    and "\<forall>e \<in> set es. CHR ''/'' \<notin> set e"
  shows "\<forall>e \<in> set (clean_elems rooted es out). e \<noteq> [] \<and> e \<noteq> ''.'' \<and> CHR ''/'' \<notin> set e"
  using assms
proof (induction rooted es out rule: clean_elems.induct)
  case (1 rooted out)
  then show ?case by simp
next
  case (2 rooted e es out)
  have bl: "\<forall>e \<in> set (butlast out). e \<noteq> [] \<and> e \<noteq> ''.'' \<and> CHR ''/'' \<notin> set e"
    using "2.prems"(1) by (auto dest: in_set_butlastD)
  have dd: "\<forall>e \<in> set (out @ [''..'']). e \<noteq> [] \<and> e \<noteq> ''.'' \<and> CHR ''/'' \<notin> set e"
    using "2.prems"(1) by simp
  have es: "\<forall>e \<in> set es. CHR ''/'' \<notin> set e"
    using "2.prems"(2) by simp
  show ?case
  proof (cases "e = [] \<or> e = ''.''")
    case True
    with "2.IH"(1) [OF True "2.prems"(1) es] show ?thesis by simp
  next
    case False
    show ?thesis
    proof (cases "e = ''..''")
      case dotdot: True
      show ?thesis
      proof (cases "out \<noteq> [] \<and> last out \<noteq> ''..''")
        case True
        with "2.IH"(2) [OF False dotdot True bl es] False dotdot show ?thesis by simp
      next
        case nb: False
        show ?thesis
        proof (cases rooted)
          case True
          with "2.IH"(3) [OF False dotdot nb True "2.prems"(1) es] False dotdot nb
          show ?thesis by auto
        next
          case nr: False
          with "2.IH"(4) [OF False dotdot nb nr dd es] False dotdot nb
          show ?thesis by auto
        qed
      qed
    next
      case other: False
      have oe: "\<forall>x \<in> set (out @ [e]). x \<noteq> [] \<and> x \<noteq> ''.'' \<and> CHR ''/'' \<notin> set x"
        using "2.prems" False by simp
      with "2.IH"(5) [OF False other oe es] False other show ?thesis by simp
    qed
  qed
qed

lemma strings_Join_eq_Nil: "strings_Join xs sep = [] \<longleftrightarrow> xs = [] \<or> xs = [[]]"
  by (induction xs sep rule: strings_Join.induct) auto

lemma strings_Join_eq_single:
  assumes "strings_Join xs sep = [c]"
  shows "xs = [[c]] \<or> (c = sep \<and> xs = [[], []])"
  using assms
proof (induction xs sep rule: strings_Join.induct)
  case (1 sep)
  then show ?case by simp
next
  case (2 x sep)
  then show ?case by simp
next
  case (3 x y ys sep)
  from "3.prems" have "x = []" and "strings_Join (y # ys) sep = []" and "c = sep"
    by (cases x; simp)+
  then show ?case by (cases ys) (auto simp: strings_Join_eq_Nil)
qed

lemma Join_underscore_closed_form:
  assumes "root \<noteq> []"
  shows "filepath_Join [root, [], ''_''] =
           (if filepath_Clean root = ''.'' then ''_''
            else if filepath_Clean root = ''/'' then ''/_''
            else filepath_Clean root @ ''/_'')"
proof -
  define rooted where "rooted = (hd root = CHR ''/'')"
  define out where "out = clean_elems rooted (strings_Split root (CHR ''/'')) []"
  have proper: "\<forall>e \<in> set out. e \<noteq> [] \<and> e \<noteq> ''.'' \<and> CHR ''/'' \<notin> set e"
    unfolding out_def by (rule clean_elems_proper) (auto dest: strings_Split_no_sep)
  have sp: "strings_Split (root @ CHR ''/'' # CHR ''/'' # ''_'') (CHR ''/'')
            = strings_Split root (CHR ''/'') @ [[], ''_'']"
    by (simp add: strings_Split_append)
  have ce: "clean_elems rooted (strings_Split root (CHR ''/'') @ [[], ''_'']) [] = out @ [''_'']"
    by (simp add: clean_elems_append out_def)
  have P: "filepath_Join [root, [], ''_''] =
           (if rooted then CHR ''/'' # strings_Join (out @ [''_'']) (CHR ''/'')
            else strings_Join (out @ [''_'']) (CHR ''/''))"
    using assms sp ce
    by (cases root) (auto simp add: filepath_Join_def path_Clean_def Let_def rooted_def)
  have C: "filepath_Clean root =
           (if rooted then CHR ''/'' # strings_Join out (CHR ''/'')
            else if out = [] then ''.'' else strings_Join out (CHR ''/''))"
    using assms by (simp add: filepath_Clean_def path_Clean_def Let_def rooted_def out_def)
  show ?thesis
  proof (cases "out = []")
    case True
    with P C show ?thesis by simp
  next
    case False
    have ne: "strings_Join out (CHR ''/'') \<noteq> []"
      using False proper by (auto simp: strings_Join_eq_Nil)
    have nd: "strings_Join out (CHR ''/'') \<noteq> ''.''"
      using strings_Join_eq_single [of out "CHR ''/''" "CHR ''.''"] proper by auto
    have ns: "strings_Join out (CHR ''/'') \<noteq> ''/''"
      using strings_Join_eq_single [of out "CHR ''/''" "CHR ''/''"] proper by auto
    from P C False ne nd ns show ?thesis
      by (simp add: strings_Join_snoc)
  qed
qed

lemma path_Split_Nil: "path_Split [] = ([], [])"
  by (simp add: path_Split_def)

section \<open>Facts about the tree-to-array converter\<close>

lemma walk_keys_visit:
  assumes "\<forall>k \<in> set ks. k \<noteq> [] \<and>
             (last k = CHR ''/'' \<longrightarrow> (\<exists>sent. walk n b (path_Join [prefix, k]) = Some (sent, None)))"
  shows "walk_keys n b prefix ks = Some (concat (map (visit n b prefix) ks), None)"
  using assms
proof (induction ks)
  case Nil
  show ?case by simp
next
  case (Cons k ks)
  then have ih: "walk_keys n b prefix ks = Some (concat (map (visit n b prefix) ks), None)"
    by simp
  from Cons.prems have ne: "k \<noteq> []" by simp
  show ?case
  proof (cases "last k = CHR ''/''")
    case True
    with Cons.prems obtain sent where w: "walk n b (path_Join [prefix, k]) = Some (sent, None)"
      by auto
    with True have v: "visit n b prefix k = sent"
      by (simp add: visit_def)
    from True ne ih w show ?thesis
      by (simp add: v Let_def del: path_Join.simps)
  next
    case False
    then have v: "visit n b prefix k = [path_Join [prefix, k]]"
      by (simp add: visit_def)
    from False ne ih show ?thesis
      by (simp add: v Let_def del: path_Join.simps)
  qed
qed

lemma walk_sorted_depth_first:
  assumes "be_List b prefix = Inr names"
    and "\<forall>k \<in> set names. k \<noteq> [] \<and>
             (last k = CHR ''/'' \<longrightarrow> (\<exists>sent. walk n b (path_Join [prefix, k]) = Some (sent, None)))"
  shows "walk (Suc n) b prefix = Some (concat (map (visit n b prefix) (sort names)), None)"
  using assms by (simp add: walk_keys_visit)

lemma walk_more_fuel:
  "walk n b prefix = Some r \<Longrightarrow> walk (Suc n) b prefix = Some r"
  "walk_keys n b prefix ks = Some r' \<Longrightarrow> walk_keys (Suc n) b prefix ks = Some r'"
proof (induction n b prefix and n b prefix ks arbitrary: r and r' rule: walk_walk_keys.induct)
  case (1 b prefix)
  then show ?case by simp
next
  case (2 n b prefix)
  then show ?case by (auto split: sum.splits)
next
  case (3 n b prefix)
  then show ?case by simp
next
  case (4 n b prefix k ks)
  show ?case
  proof (cases "k = []")
    case True
    with "4.prems" show ?thesis by simp
  next
    case False
    show ?thesis
    proof (cases "last k = CHR ''/''")
      case dir: True
      from "4.prems" False dir obtain sent e where
        w: "walk n b (path_Join [prefix, k]) = Some (sent, e)"
        by (auto simp: Let_def split: option.splits simp del: path_Join.simps walk.simps)
      from "4.IH"(1) [OF False refl dir w]
      have w': "walk (Suc n) b (path_Join [prefix, k]) = Some (sent, e)" .
      show ?thesis
      proof (cases e)
        case (Some err)
        from "4.prems" False dir w Some have "r' = (sent, Some err)"
          by (simp add: Let_def del: path_Join.simps walk.simps)
        with False dir w' Some show ?thesis
          by (simp add: Let_def del: path_Join.simps walk.simps)
      next
        case None
        with "4.prems" False dir w obtain sent' e' where
          ws: "walk_keys n b prefix ks = Some (sent', e')" and r': "r' = (sent @ sent', e')"
          by (auto simp: Let_def split: option.splits simp del: path_Join.simps walk.simps)
        from w None have wN: "walk n b (path_Join [prefix, k]) = Some (sent, None)" by simp
        from "4.IH"(2) [OF False refl dir wN refl refl ws]
        have ws': "walk_keys (Suc n) b prefix ks = Some (sent', e')" .
        from False dir w' ws' None r' show ?thesis
          by (simp add: Let_def del: path_Join.simps walk.simps)
      qed
    next
      case plain: False
      from "4.prems" False plain obtain sent' e' where
        ws: "walk_keys n b prefix ks = Some (sent', e')"
        and r': "r' = (path_Join [prefix, k] # sent', e')"
        by (auto simp: Let_def split: option.splits simp del: path_Join.simps walk.simps)
      from "4.IH"(3) [OF False refl plain ws]
      have ws': "walk_keys (Suc n) b prefix ks = Some (sent', e')" .
      from False plain ws' r' show ?thesis
        by (simp add: Let_def del: path_Join.simps walk.simps)
    qed
  qed
qed

lemma deferred_Close_first: "deferred_Close closeError err = first_error [err, closeError]"
  by (cases err; cases closeError) (simp_all add: deferred_Close_def)

lemma first_error_append: "first_error (xs @ ys) = (case first_error xs of None \<Rightarrow> first_error ys | Some e \<Rightarrow> Some e)"
  by (induction xs rule: first_error.induct) simp_all


lemma setErr_keeps: "firstErr c = Some e \<Longrightarrow> firstErr (setErr e' c) = Some e"
  by (simp add: setErr_def)

lemma fc_convert_errors:
  assumes "openFilesystemBackend env fuel inputPath = Some (Inr fb)"
    and "openConsulBackend env outputPath consulPath = Inr cb"
    and "conversion env consulPath fb cb = Some (err, cb1)"
    and "cb_Close env cb1 = Some (closeError, cb2)"
  shows "fc_convert env fuel inputPath outputPath consulPath =
           Some (first_error [err, closeError, fb_Close fb], Some (cb_file cb2))"
  using assms
  by (cases err; cases closeError)
     (simp_all add: fc_convert_def deferred_Close_def fb_Close_def)

lemma fc_convert_open_error:
  assumes "openFilesystemBackend env fuel inputPath = Some (Inr fb)"
    and "openConsulBackend env outputPath consulPath = Inl openError"
  shows "fc_convert env fuel inputPath outputPath consulPath =
           Some (first_error [Some openError, fb_Close fb], None)"
  using assms by (simp add: fc_convert_def deferred_Close_def)

lemma cb_Close_failed_flush:
  assumes "flush env (snd (writeTrailer be)) = Some (Some err, be2)"
  shows "cb_Close env be = Some (Some err, be2)"
  using assms by (simp add: cb_Close_def writeTrailer_def Let_def)

lemma cb_Close_closes_file:
  assumes "flush env (snd (writeTrailer be)) = Some (None, be2)"
  shows "cb_Close env be =
           Some (fst (file_Close env (cb_file be2)),
                 be2\<lparr>cb_file := snd (file_Close env (cb_file be2))\<rparr>)"
  using assms by (simp add: cb_Close_def writeTrailer_def Let_def split: prod.splits)

section \<open>Facts about the stepped walker\<close>

lemma take_min_append: "take (min k (length xs)) (xs @ ys) = take k xs"
  by (cases "k \<le> length xs") (simp_all add: min_def)

lemma step_producer:
  assumes "coherent w" "step ev w = Some (rets, w1)" "ev \<noteq> Call_Next" "ev \<noteq> Call_Stop"
  shows "coherent w1 \<and> rets = [] \<and> stop_closed w1 = stop_closed w \<and> goroutine w \<noteq> Exited
         \<and> ((to_come w1 = to_come w \<and> final_error w1 = final_error w)
            \<or> (stop_closed w \<and> goroutine w1 = Exited \<and> final_error w1 = None
                \<and> (\<exists>rest. to_come w = to_come w1 @ rest)))"
proof (cases ev)
  case Walk_step
  show ?thesis
  proof (cases "pending w")
    case Nil
    with assms Walk_step show ?thesis
      by (auto simp: coherent_def goroutine_exit_def to_come_def final_error_def regular_def
          split: if_splits)
  next
    case (Cons v rest)
    obtain path info err where v: "v = (path, info, err)" by (cases v) auto
    show ?thesis
    proof (cases err)
      case (Some e)
      with assms Walk_step Cons v show ?thesis
        by (auto simp: coherent_def goroutine_exit_def to_come_def final_error_def regular_def
            walkFn_def no_error_def Let_def split: if_splits)
    next
      case None
      with assms Walk_step Cons v show ?thesis
        by (auto simp: coherent_def goroutine_exit_def to_come_def final_error_def regular_def
            walkFn_def no_error_def Let_def split: if_splits)
    qed
  qed
next
  case Select_send
  with assms show ?thesis
    by (auto simp: coherent_def to_come_def final_error_def split: producer.splits if_splits)
next
  case Select_stop
  with assms show ?thesis
    by (auto simp: coherent_def goroutine_exit_def to_come_def final_error_def Let_def
        split: producer.splits if_splits)
next
  case Call_Next
  with assms show ?thesis by simp
next
  case Call_Stop
  with assms show ?thesis by simp
qed

lemma step_Stop:
  assumes "coherent w"
  shows "coherent (Walker_Stop w) \<and> to_come (Walker_Stop w) = to_come w
         \<and> final_error (Walker_Stop w) = final_error w
         \<and> goroutine (Walker_Stop w) = goroutine w"
  using assms by (auto simp: Walker_Stop_def coherent_def to_come_def final_error_def)

lemma step_Next:
  assumes "coherent w" "step Call_Next w = Some (rets, w1)"
  shows "coherent w1 \<and> final_error w1 = final_error w \<and> goroutine w1 = goroutine w
         \<and> stop_closed w1 = stop_closed w
         \<and> ((\<exists>r. rets = [ok r] \<and> to_come w = r # to_come w1)
            \<or> (rets = [(None, final_error w)] \<and> to_come w = [] \<and> w1 = w
                \<and> goroutine w = Exited))"
proof (cases "results w")
  case Nil
  with assms show ?thesis
    by (auto simp: Walker_Next_def coherent_def to_come_def final_error_def split: if_splits)
next
  case (Cons r rs)
  with assms show ?thesis
    by (auto simp: Walker_Next_def coherent_def to_come_def final_error_def ok_def)
qed

lemma step_coherent:
  assumes "coherent w" "step ev w = Some (rets, w1)"
  shows "coherent w1"
proof (cases "ev = Call_Stop")
  case True
  with assms step_Stop [OF assms(1)] show ?thesis by simp
next
  case False
  show ?thesis
  proof (cases "ev = Call_Next")
    case True
    with assms step_Next [of w rets w1] show ?thesis by simp
  next
    case nn: False
    from step_producer [OF assms nn False] show ?thesis by simp
  qed
qed

lemma step_exited:
  assumes "step ev w = Some (rets, w1)" "goroutine w = Exited"
  shows "goroutine w1 = Exited \<and> walk_err w1 = walk_err w"
  using assms
  by (cases ev) (auto simp: Walker_Next_def Walker_Stop_def split: list.splits if_splits)

lemma run_exited:
  assumes "run evs w = Some (rets, w')" "goroutine w = Exited"
  shows "walk_err w' = walk_err w"
  using assms
proof (induction evs arbitrary: w rets)
  case Nil
  then show ?case by simp
next
  case (Cons ev evs)
  from Cons.prems(1) obtain r1 w1 r2 where
    st: "step ev w = Some (r1, w1)" and rn: "run evs w1 = Some (r2, w')"
    by (auto split: option.splits)
  from step_exited [OF st Cons.prems(2)] Cons.IH [OF rn] show ?case by simp
qed

lemma run_delivers:
  assumes "run evs w = Some (rets, w')" "coherent w"
  shows "\<exists>k m x. rets = map ok (take k (to_come w)) @ replicate m (None, x)
           \<and> (0 < m \<longrightarrow> x = walk_err w')
           \<and> (x = final_error w \<or> (x = None \<and> goroutine w \<noteq> Exited))
           \<and> (0 < m \<and> x \<noteq> None \<longrightarrow> k = length (to_come w))
           \<and> (Call_Stop \<notin> set evs \<and> \<not> stop_closed w \<longrightarrow>
                x = final_error w \<and> (0 < m \<longrightarrow> k = length (to_come w)))"
  using assms
proof (induction evs arbitrary: w rets)
  case Nil
  then have "rets = map ok (take 0 (to_come w)) @ replicate 0 (None, final_error w)" by simp
  then show ?case by blast
next
  case (Cons ev evs)
  from Cons.prems(1) obtain r1 w1 r2 where
    st: "step ev w = Some (r1, w1)" and rn: "run evs w1 = Some (r2, w')" and rets: "rets = r1 @ r2"
    by (auto split: option.splits)
  have c1: "coherent w1" by (rule step_coherent [OF Cons.prems(2) st])
  from Cons.IH [OF rn c1] obtain k m x where
    r2: "r2 = map ok (take k (to_come w1)) @ replicate m (None, x)"
    and xe: "0 < m \<longrightarrow> x = walk_err w'"
    and xf: "x = final_error w1 \<or> (x = None \<and> goroutine w1 \<noteq> Exited)"
    and kl: "0 < m \<and> x \<noteq> None \<longrightarrow> k = length (to_come w1)"
    and ns: "Call_Stop \<notin> set evs \<and> \<not> stop_closed w1 \<longrightarrow>
               x = final_error w1 \<and> (0 < m \<longrightarrow> k = length (to_come w1))"
    by blast
  consider (stop) "ev = Call_Stop" | (nxt) "ev = Call_Next"
    | (prod) "ev \<noteq> Call_Stop" "ev \<noteq> Call_Next"
    by blast
  then show ?case
  proof cases
    case stop
    with st have w1: "w1 = Walker_Stop w" and r1: "r1 = []" by simp_all
    from step_Stop [OF Cons.prems(2)] w1
    have same: "to_come w1 = to_come w" "final_error w1 = final_error w"
      "goroutine w1 = goroutine w"
      by simp_all
    have "rets = map ok (take k (to_come w)) @ replicate m (None, x)
           \<and> (0 < m \<longrightarrow> x = walk_err w')
           \<and> (x = final_error w \<or> (x = None \<and> goroutine w \<noteq> Exited))
           \<and> (0 < m \<and> x \<noteq> None \<longrightarrow> k = length (to_come w))
           \<and> (Call_Stop \<notin> set (ev # evs) \<and> \<not> stop_closed w \<longrightarrow>
                x = final_error w \<and> (0 < m \<longrightarrow> k = length (to_come w)))"
      using rets r1 r2 xe xf kl same stop by simp
    then show ?thesis by blast
  next
    case prod
    from step_producer [OF Cons.prems(2) st prod(2) prod(1)]
    have r1: "r1 = []" and sc: "stop_closed w1 = stop_closed w" and ne: "goroutine w \<noteq> Exited"
      and alt: "(to_come w1 = to_come w \<and> final_error w1 = final_error w)
            \<or> (stop_closed w \<and> goroutine w1 = Exited \<and> final_error w1 = None
                \<and> (\<exists>rest. to_come w = to_come w1 @ rest))"
      by simp_all
    from alt show ?thesis
    proof
      assume same: "to_come w1 = to_come w \<and> final_error w1 = final_error w"
      have "rets = map ok (take k (to_come w)) @ replicate m (None, x)
           \<and> (0 < m \<longrightarrow> x = walk_err w')
           \<and> (x = final_error w \<or> (x = None \<and> goroutine w \<noteq> Exited))
           \<and> (0 < m \<and> x \<noteq> None \<longrightarrow> k = length (to_come w))
           \<and> (Call_Stop \<notin> set (ev # evs) \<and> \<not> stop_closed w \<longrightarrow>
                x = final_error w \<and> (0 < m \<longrightarrow> k = length (to_come w)))"
        using rets r1 r2 xe xf kl ns same sc ne by auto
      then show ?thesis by blast
    next
      assume cut: "stop_closed w \<and> goroutine w1 = Exited \<and> final_error w1 = None
                \<and> (\<exists>rest. to_come w = to_come w1 @ rest)"
      then obtain rest where tc: "to_come w = to_come w1 @ rest" by blast
      from cut xf have x: "x = None" by auto
      have tk: "take (min k (length (to_come w1))) (to_come w) = take k (to_come w1)"
        unfolding tc by (rule take_min_append)
      have "rets = map ok (take (min k (length (to_come w1))) (to_come w)) @ replicate m (None, x)
           \<and> (0 < m \<longrightarrow> x = walk_err w')
           \<and> (x = final_error w \<or> (x = None \<and> goroutine w \<noteq> Exited))
           \<and> (0 < m \<and> x \<noteq> None \<longrightarrow> min k (length (to_come w1)) = length (to_come w))
           \<and> (Call_Stop \<notin> set (ev # evs) \<and> \<not> stop_closed w \<longrightarrow>
                x = final_error w \<and> (0 < m \<longrightarrow> min k (length (to_come w1)) = length (to_come w)))"
        using rets r1 r2 xe x ne cut by (simp add: tk)
      then show ?thesis by blast
    qed
  next
    case nxt
    from step_Next [OF Cons.prems(2) st [unfolded nxt]]
    have fe: "final_error w1 = final_error w" and g: "goroutine w1 = goroutine w"
      and sc: "stop_closed w1 = stop_closed w"
      and alt: "(\<exists>r. r1 = [ok r] \<and> to_come w = r # to_come w1)
            \<or> (r1 = [(None, final_error w)] \<and> to_come w = [] \<and> w1 = w \<and> goroutine w = Exited)"
      by simp_all
    from alt show ?thesis
    proof
      assume "\<exists>r. r1 = [ok r] \<and> to_come w = r # to_come w1"
      then obtain r where r: "r1 = [ok r]" "to_come w = r # to_come w1" by blast
      have "rets = map ok (take (Suc k) (to_come w)) @ replicate m (None, x)
           \<and> (0 < m \<longrightarrow> x = walk_err w')
           \<and> (x = final_error w \<or> (x = None \<and> goroutine w \<noteq> Exited))
           \<and> (0 < m \<and> x \<noteq> None \<longrightarrow> Suc k = length (to_come w))
           \<and> (Call_Stop \<notin> set (ev # evs) \<and> \<not> stop_closed w \<longrightarrow>
                x = final_error w \<and> (0 < m \<longrightarrow> Suc k = length (to_come w)))"
        using rets r r2 xe xf kl ns fe g sc by auto
      then show ?thesis by blast
    next
      assume e: "r1 = [(None, final_error w)] \<and> to_come w = [] \<and> w1 = w \<and> goroutine w = Exited"
      with xf g have mx: "m = 0 \<or> x = final_error w" by auto
      from e r2 have "r2 = replicate m (None, x)" by simp
      with mx have r2': "r2 = replicate m (None, final_error w)" by auto
      from e rn have "run evs w = Some (r2, w')" by simp
      from run_exited [OF this] e have we: "walk_err w' = walk_err w" by simp
      from e have fw: "final_error w = walk_err w" by (simp add: final_error_def)
      have "rets = map ok (take 0 (to_come w)) @ replicate (Suc m) (None, final_error w)
           \<and> (0 < Suc m \<longrightarrow> final_error w = walk_err w')
           \<and> (final_error w = final_error w \<or> (final_error w = None \<and> goroutine w \<noteq> Exited))
           \<and> (0 < Suc m \<and> final_error w \<noteq> None \<longrightarrow> 0 = length (to_come w))
           \<and> (Call_Stop \<notin> set (ev # evs) \<and> \<not> stop_closed w \<longrightarrow>
                final_error w = final_error w \<and> (0 < Suc m \<longrightarrow> 0 = length (to_come w)))"
        using rets e r2' we fw by simp
      then show ?thesis by blast
    qed
  qed
qed

section \<open>The claims\<close>

text \<open>
  C1. For every record (key, value) and every non-empty prefix, the entry conversion
  of the tree-to-array converter followed by the entry conversion of the
  array-to-tree converter with the same prefix restores the record: stripping the
  prefix that was added gives the key back, decoding the encoded value gives the
  value back byte for byte, and so the composition of the two \<^verbatim>\<open>convertEntry\<close>
  functions is the identity on records.
\<close>

theorem convertEntry_roundtrip:
  assumes "prefix \<noteq> []"
  shows "keyStripPrefix (keyAddPrefix key prefix) prefix = key
       \<and> base64_DecodeString (base64_EncodeToString v) = Inr v
       \<and> (case convertEntry_fc entry prefix of
            Inl err \<Rightarrow> Inl err
          | Inr ce \<Rightarrow> convertEntry_cf ce prefix) = Inr entry"
  using assms
  by (simp add: convertEntry_fc_def convertEntry_cf_def base64_roundtrip
      keyStripPrefix_keyAddPrefix)

theorem convertEntry_roundtrip_witness:
  "''vault'' \<noteq> []
   \<and> keyStripPrefix (keyAddPrefix ''secret/x'' ''vault'') ''vault'' = ''secret/x''
   \<and> base64_DecodeString (base64_EncodeToString [0x68, 0x69]) = Inr [0x68, 0x69]
   \<and> (case convertEntry_fc \<lparr> vault_Key = ''secret/x'', vault_Value = [0x68, 0x69] \<rparr> ''vault'' of
        Inl err \<Rightarrow> Inl err
      | Inr ce \<Rightarrow> convertEntry_cf ce ''vault'')
       = Inr \<lparr> vault_Key = ''secret/x'', vault_Value = [0x68, 0x69] \<rparr>"
proof -
  have h: "''vault'' \<noteq> []" by simp
  show ?thesis
    using h convertEntry_roundtrip [OF h, of "''secret/x''" "[0x68, 0x69]"
        "\<lparr> vault_Key = ''secret/x'', vault_Value = [0x68, 0x69] \<rparr>"]
    by simp
qed

text \<open>
  C2. Claimed: for every run of the tree-to-array converter, also one whose source
  yields no record, the bytes written to the output file are a well-formed JSON
  array: the opening bracket, the records separated by commas, the closing bracket
  and a newline. \<^verbatim>\<open>writeTrailer\<close> removes the last two bytes of the buffer, which
  its comment takes to be the separator after the last record; with no record
  written they are the header. The run on an empty tree succeeds and writes a
  newline, the closing bracket and a newline, with no opening bracket.
\<close>

theorem empty_tree_output_lacks_opening_bracket:
  "fc_convert (demo_env [] []) 1 ''in'' ''out.json'' ''vault''
     = Some (None, Some [CHR 0x0A, CHR '']'', CHR 0x0A])
   \<and> writeTrailer (snd (writeHeader \<lparr>cb_file = f, cb_buffer = [], cb_keyPrefix = p\<rparr>))
     = (None, \<lparr>cb_file = f, cb_buffer = [CHR 0x0A, CHR '']'', CHR 0x0A], cb_keyPrefix = p\<rparr>)"
proof -
  have "fc_convert (demo_env [] []) 1 ''in'' ''out.json'' ''vault''
     = Some (None, Some [CHR 0x0A, CHR '']'', CHR 0x0A])"
    by code_simp
  then show ?thesis
    by (simp add: writeHeader_def writeTrailer_def Let_def)
qed

text \<open>
  C3. Claimed: with the prefix \<^verbatim>\<open>vault\<close>, a source record with key \<^verbatim>\<open>other/x\<close> is
  left out of the output of the forward conversion and one with key
  \<^verbatim>\<open>vault/secret/x\<close> appears with key \<^verbatim>\<open>secret/x\<close>. The forward, tree-to-array
  converter has no filter: it adds the prefix to every key, and the record
  \<^verbatim>\<open>other/x\<close> is written with key \<^verbatim>\<open>vault/other/x\<close>. The filter is in the
  array-to-tree converter, for which the statement holds: \<^verbatim>\<open>convert\<close> skips a
  record whose key lacks the prefix, with no error and no call on the file system,
  and writes the record \<^verbatim>\<open>vault/secret/x\<close> under the key \<^verbatim>\<open>secret/x\<close>.
\<close>

theorem namespace_filter_array_to_tree:
  assumes "input c = Inr e # rest"
  shows "(\<not> keyHasPrefix (consul_Key e) (keyPrefix c) \<longrightarrow>
            convert os c fs = (None, c\<lparr>input := rest\<rparr>, fs))
       \<and> (keyPrefix c = ''vault'' \<and> consul_Key e = ''other/x'' \<longrightarrow>
            convert os c fs = (None, c\<lparr>input := rest\<rparr>, fs))
       \<and> (keyPrefix c = ''vault'' \<and> consul_Key e = ''vault/secret/x''
            \<and> base64_DecodeString (consul_Value e) = Inr v \<longrightarrow>
            convert os c fs =
              (case openFile os (outputRootPath c) ''secret/x'' fs of
                 (Inl err, fs1) \<Rightarrow> (Some err, c\<lparr>input := rest\<rparr>, fs1)
               | (Inr f, fs1) \<Rightarrow>
                   (case json_Encode os f \<lparr>vault_Key = ''secret/x'', vault_Value = v\<rparr> fs1 of
                      (err, fs2) \<Rightarrow> (err, c\<lparr>input := rest\<rparr>, fs2))))"
proof -
  have no: "\<not> keyHasPrefix ''other/x'' ''vault''" by code_simp
  have yes: "keyHasPrefix ''vault/secret/x'' ''vault''" by code_simp
  have strip: "keyStripPrefix ''vault/secret/x'' ''vault'' = ''secret/x''" by code_simp
  have a: "convert os c fs = (None, c\<lparr>input := rest\<rparr>, fs)"
    if "\<not> keyHasPrefix (consul_Key e) (keyPrefix c)"
    using convert_skip [OF assms that] .
  have b: "convert os c fs =
              (case openFile os (outputRootPath c) ''secret/x'' fs of
                 (Inl err, fs1) \<Rightarrow> (Some err, c\<lparr>input := rest\<rparr>, fs1)
               | (Inr f, fs1) \<Rightarrow>
                   (case json_Encode os f \<lparr>vault_Key = ''secret/x'', vault_Value = v\<rparr> fs1 of
                      (err, fs2) \<Rightarrow> (err, c\<lparr>input := rest\<rparr>, fs2)))"
    if "keyPrefix c = ''vault''" "consul_Key e = ''vault/secret/x''"
      "base64_DecodeString (consul_Value e) = Inr v"
    using convert_write [OF assms _ that(3), of os fs] that(1,2)
    by (simp add: yes strip Let_def)
  from a b no show ?thesis by simp
qed

theorem namespace_filter_array_to_tree_witness:
  "ConvertAll mem_os
     (demo_Converter\<lparr>input :=
        [Inr \<lparr>consul_Key = ''other/x'', consul_Flags = 0, consul_Value = ''YQ==''\<rparr>,
         Inr \<lparr>consul_Key = ''vault/secret/x'', consul_Flags = 0, consul_Value = ''aGk=''\<rparr>]\<rparr>) []
   = (None, demo_Converter\<lparr>count := 2\<rparr>,
      [(''out/secret/_x'', [\<lparr>vault_Key = ''secret/x'', vault_Value = [0x68, 0x69]\<rparr>])])"
proof -
  let ?o = "\<lparr>consul_Key = ''other/x'', consul_Flags = 0, consul_Value = ''YQ==''\<rparr>"
  let ?s = "\<lparr>consul_Key = ''vault/secret/x'', consul_Flags = 0, consul_Value = ''aGk=''\<rparr>"
  let ?c1 = "demo_Converter\<lparr>input := [Inr ?o, Inr ?s], count := 1\<rparr>"
  let ?c2 = "demo_Converter\<lparr>input := [Inr ?s], count := 2\<rparr>"
  have i1: "input ?c1 = Inr ?o # [Inr ?s]" by simp
  have i2: "input ?c2 = Inr ?s # []" by simp
  have h1: "keyPrefix ?c1 = ''vault'' \<and> consul_Key ?o = ''other/x''"
    by (simp add: demo_Converter_def)
  have v: "base64_DecodeString ''aGk='' = Inr [0x68, 0x69]" by code_simp
  have h2: "keyPrefix ?c2 = ''vault'' \<and> consul_Key ?s = ''vault/secret/x''
            \<and> base64_DecodeString (consul_Value ?s) = Inr [0x68, 0x69]"
    using v by (simp add: demo_Converter_def)
  have s1: "convert mem_os ?c1 [] = (None, ?c1\<lparr>input := [Inr ?s]\<rparr>, [])"
    using namespace_filter_array_to_tree [OF i1, of mem_os "[]"] h1 by blast
  have p: "path_Split ''secret/x'' = (''secret/'', ''x'')"
    "filepath_Join [''out'', ''secret/'', ''_x''] = ''out/secret/_x''"
    "filepath_Dir ''out/secret/_x'' = ''out/secret''"
    by code_simp+
  have op: "openFile mem_os ''out'' ''secret/x'' [] = (Inr ''out/secret/_x'', [(''out/secret/_x'', [])])"
    by (simp add: openFile_def p mem_os_def Let_def)
  have root: "outputRootPath ?c2 = ''out''" by (simp add: demo_Converter_def)
  have "convert mem_os ?c2 [] =
              (case openFile mem_os (outputRootPath ?c2) ''secret/x'' [] of
                 (Inl err, fs1) \<Rightarrow> (Some err, ?c2\<lparr>input := []\<rparr>, fs1)
               | (Inr f, fs1) \<Rightarrow>
                   (case json_Encode mem_os f \<lparr>vault_Key = ''secret/x'', vault_Value = [0x68, 0x69]\<rparr> fs1 of
                      (err, fs2) \<Rightarrow> (err, ?c2\<lparr>input := []\<rparr>, fs2)))"
    using namespace_filter_array_to_tree [OF i2, of mem_os "[]" "[0x68, 0x69]"] h2 by blast
  then have s2: "convert mem_os ?c2 [] = (None, ?c2\<lparr>input := []\<rparr>,
      [(''out/secret/_x'', [\<lparr>vault_Key = ''secret/x'', vault_Value = [0x68, 0x69]\<rparr>])])"
    unfolding root op by (simp add: mem_os_def fs_get_def)
  note s1' = s1 [unfolded demo_Converter_def, simplified]
  note s2' = s2 [unfolded demo_Converter_def, simplified]
  show ?thesis
    by (simp add: ConvertAll.simps Convert_def Let_def s1' s2' Err_def demo_Converter_def)
qed

theorem forward_keeps_foreign_key_counterexample:
  "fc_convert
     (demo_env [([], [''other/'']), (''other'', [''x''])]
               [(''other/x'', \<lparr>vault_Key = ''other/x'', vault_Value = [0x61]\<rparr>)])
     2 ''in'' ''out.json'' ''vault''
   = Some (None,
       Some ([CHR ''['', CHR 0x0A, CHR 0x09]
             @ render \<lparr>consul_Key = ''vault/other/x'', consul_Flags = 0, consul_Value = ''YQ==''\<rparr>
             @ [CHR 0x0A, CHR '']'', CHR 0x0A]))"
  by code_simp

text \<open>
  C4. For every key and prefix, \<^verbatim>\<open>keyStripPrefix\<close> splits both strings on the slash.
  If the leading segments of the key are not exactly the segments of the prefix
  (also when the key has fewer segments than the prefix) it returns the key
  unchanged; otherwise it returns the remaining segments of the key joined by
  slashes. In particular \<^verbatim>\<open>keyStripPrefix(key, prefix) = key\<close> whenever
  \<^verbatim>\<open>keyHasPrefix(key, prefix)\<close> is false.
\<close>

theorem keyStripPrefix_segments:
  "keyStripPrefix key prefix =
     (if take (length (strings_Split prefix (CHR ''/''))) (strings_Split key (CHR ''/''))
           = strings_Split prefix (CHR ''/'')
      then strings_Join (drop (length (strings_Split prefix (CHR ''/'')))
                              (strings_Split key (CHR ''/''))) (CHR ''/'')
      else key)
   \<and> (\<not> keyHasPrefix key prefix \<longrightarrow> keyStripPrefix key prefix = key)"
  by (simp add: keyStripPrefix_eq keyHasPrefix_iff)

theorem keyStripPrefix_segments_witness:
  "\<not> keyHasPrefix ''vaulted/x'' ''vault'' \<and> keyStripPrefix ''vaulted/x'' ''vault'' = ''vaulted/x''
   \<and> \<not> keyHasPrefix ''vault'' ''vault/x'' \<and> keyStripPrefix ''vault'' ''vault/x'' = ''vault''"
proof -
  have a: "\<not> keyHasPrefix ''vaulted/x'' ''vault''" by code_simp
  have b: "\<not> keyHasPrefix ''vault'' ''vault/x''" by code_simp
  show ?thesis
    using a b keyStripPrefix_segments [of "''vaulted/x''" "''vault''"]
      keyStripPrefix_segments [of "''vault''" "''vault/x''"]
    by blast
qed

text \<open>
  C5. For the tree with exactly the keys \<^verbatim>\<open>a/1\<close>, \<^verbatim>\<open>a/2\<close> and \<^verbatim>\<open>b/1\<close>, whose
  directories list their names in another order, the tree-to-array converter writes
  the three records in that order. In general the walk of a directory whose listing
  succeeds sends, for the names of the listing in sorted order, the key of each
  file and, at the place of each sub-directory, all the keys of the walk of that
  sub-directory. A walk that ends within a bound on the depth gives the same result
  within a larger bound.
\<close>

theorem walk_sorted_depth_first_order:
  "(be_List b prefix = Inr names
      \<and> (\<forall>k \<in> set names. k \<noteq> [] \<and>
            (last k = CHR ''/'' \<longrightarrow> (\<exists>sent. walk n b (path_Join [prefix, k]) = Some (sent, None))))
      \<longrightarrow> walk (Suc n) b prefix = Some (concat (map (visit n b prefix) (sort names)), None))
   \<and> (walk n b prefix = Some r \<longrightarrow> walk (Suc n) b prefix = Some r)
   \<and> walk 2 (demo_backend tree_dirs tree_files) [] = Some ([''a/1'', ''a/2'', ''b/1''], None)
   \<and> fc_convert (demo_env tree_dirs tree_files) 2 ''in'' ''out.json'' ''vault'' =
       Some (None, Some ([CHR ''['', CHR 0x0A, CHR 0x09]
         @ render \<lparr>consul_Key = ''vault/a/1'', consul_Flags = 0, consul_Value = ''YQ==''\<rparr>
         @ [CHR '','', CHR 0x0A, CHR 0x09]
         @ render \<lparr>consul_Key = ''vault/a/2'', consul_Flags = 0, consul_Value = ''Yg==''\<rparr>
         @ [CHR '','', CHR 0x0A, CHR 0x09]
         @ render \<lparr>consul_Key = ''vault/b/1'', consul_Flags = 0, consul_Value = ''Yw==''\<rparr>
         @ [CHR 0x0A, CHR '']'', CHR 0x0A]))"
proof -
  have w: "walk 2 (demo_backend tree_dirs tree_files) [] = Some ([''a/1'', ''a/2'', ''b/1''], None)"
    by code_simp
  have c: "fc_convert (demo_env tree_dirs tree_files) 2 ''in'' ''out.json'' ''vault'' =
       Some (None, Some ([CHR ''['', CHR 0x0A, CHR 0x09]
         @ render \<lparr>consul_Key = ''vault/a/1'', consul_Flags = 0, consul_Value = ''YQ==''\<rparr>
         @ [CHR '','', CHR 0x0A, CHR 0x09]
         @ render \<lparr>consul_Key = ''vault/a/2'', consul_Flags = 0, consul_Value = ''Yg==''\<rparr>
         @ [CHR '','', CHR 0x0A, CHR 0x09]
         @ render \<lparr>consul_Key = ''vault/b/1'', consul_Flags = 0, consul_Value = ''Yw==''\<rparr>
         @ [CHR 0x0A, CHR '']'', CHR 0x0A]))"
    by code_simp
  show ?thesis
    using w c walk_sorted_depth_first [of b prefix names n] walk_more_fuel(1) [of n b prefix r]
    by blast
qed

theorem walk_sorted_depth_first_order_witness:
  "walk 2 (demo_backend tree_dirs tree_files) []
     = Some (visit 1 (demo_backend tree_dirs tree_files) [] ''a/''
             @ visit 1 (demo_backend tree_dirs tree_files) [] ''b/'', None)
   \<and> visit 1 (demo_backend tree_dirs tree_files) [] ''a/'' = [''a/1'', ''a/2'']
   \<and> visit 1 (demo_backend tree_dirs tree_files) [] ''b/'' = [''b/1'']"
proof -
  let ?b = "demo_backend tree_dirs tree_files"
  have l: "be_List ?b [] = Inr [''b/'', ''a/'']"
    by (simp add: demo_backend_def tree_dirs_def)
  have s: "sort [''b/'', ''a/''] = [''a/'', ''b/'']" by code_simp
  have wa: "walk 1 ?b (path_Join [[], ''a/'']) = Some ([''a/1'', ''a/2''], None)" by code_simp
  have wb: "walk 1 ?b (path_Join [[], ''b/'']) = Some ([''b/1''], None)" by code_simp
  have h: "be_List ?b [] = Inr [''b/'', ''a/'']
      \<and> (\<forall>k \<in> set [''b/'', ''a/'']. k \<noteq> [] \<and>
            (last k = CHR ''/'' \<longrightarrow> (\<exists>sent. walk 1 ?b (path_Join [[], k]) = Some (sent, None))))"
    using l wa wb by (simp del: path_Join.simps walk.simps)
  have "walk (Suc 1) ?b [] = Some (concat (map (visit 1 ?b []) (sort [''b/'', ''a/''])), None)"
    using walk_sorted_depth_first_order [of ?b "[]" "[''b/'', ''a/'']" 1] h by blast
  moreover have "visit 1 ?b [] ''a/'' = [''a/1'', ''a/2'']" "visit 1 ?b [] ''b/'' = [''b/1'']"
    using wa wb by (simp_all add: visit_def)
  ultimately show ?thesis
    by (simp add: s numeral_2_eq_2)
qed

text \<open>
  C6. Claimed: when the background traversal of the Walker fails, every entry
  produced before the failure is returned by \<^verbatim>\<open>Next\<close> before the error, and the
  error is returned exactly once. \<^verbatim>\<open>Next\<close> reads \<^verbatim>\<open>w.err\<close> whenever it finds the
  channel closed and empty, and nothing clears it: in the counterexample the walk
  fails at once and two calls of \<^verbatim>\<open>Next\<close> both return the error. What holds, in
  every interleaving of the goroutine and the caller, with or without calls of
  \<^verbatim>\<open>Stop\<close>, for a walk whose first failing visit has the error \<open>e\<close>: the values
  returned by \<^verbatim>\<open>Next\<close> are regular files visited before the failure, in the order
  of the visits and each with a nil error, and then one and the same value with a
  nil result as often as \<^verbatim>\<open>Next\<close> is called again, which is \<^verbatim>\<open>w.err\<close>; it is
  \<open>e\<close> or nil, and where it is \<open>e\<close> all the regular files visited before the
  failure were returned before it. When \<^verbatim>\<open>Stop\<close> is not called it is \<open>e\<close>.
\<close>

theorem walker_entries_before_error:
  assumes "run evs (NewWalker (pre @ (path, info, Some e) # post)) = Some (rets, w)"
    and "\<forall>v \<in> set pre. snd (snd v) = None"
    and "e \<noteq> WalkStopped"
  shows "\<exists>k m x. rets = map (\<lambda>r. (Some r, None)) (take k (regular pre)) @ replicate m (None, x)
               \<and> (0 < m \<longrightarrow> x = walk_err w)
               \<and> (x = Some e \<or> x = None)
               \<and> (0 < m \<and> x = Some e \<longrightarrow> k = length (regular pre))
               \<and> (Call_Stop \<notin> set evs \<longrightarrow> x = Some e \<and> (0 < m \<longrightarrow> k = length (regular pre)))"
proof -
  let ?w = "NewWalker (pre @ (path, info, Some e) # post)"
  from assms(2) have tw: "takeWhile no_error (pre @ (path, info, Some e) # post) = pre"
    by (subst takeWhile_append2) (auto simp: no_error_def)
  from assms(2) have dw: "dropWhile no_error (pre @ (path, info, Some e) # post)
                          = (path, info, Some e) # post"
    by (subst dropWhile_append2) (auto simp: no_error_def)
  have tc: "to_come ?w = regular pre"
    by (simp add: to_come_def NewWalker_def tw)
  have fe: "final_error ?w = Some e"
    by (simp add: final_error_def NewWalker_def dw)
  have sc: "\<not> stop_closed ?w"
    by (simp add: NewWalker_def)
  have co: "coherent ?w"
    using assms(3) fe by (simp add: coherent_def) (simp add: NewWalker_def)
  from run_delivers [OF assms(1) co] obtain k m x where
    r: "rets = map ok (take k (regular pre)) @ replicate m (None, x)"
    and xe: "0 < m \<longrightarrow> x = walk_err w"
    and xf: "x = Some e \<or> x = None"
    and kl: "0 < m \<and> x \<noteq> None \<longrightarrow> k = length (regular pre)"
    and ns: "Call_Stop \<notin> set evs \<longrightarrow> x = Some e \<and> (0 < m \<longrightarrow> k = length (regular pre))"
    unfolding tc fe using sc by auto
  have ok: "map ok = map (\<lambda>r. (Some r, None))"
    by (simp add: ok_def [abs_def])
  have "rets = map (\<lambda>r. (Some r, None)) (take k (regular pre)) @ replicate m (None, x)
               \<and> (0 < m \<longrightarrow> x = walk_err w)
               \<and> (x = Some e \<or> x = None)
               \<and> (0 < m \<and> x = Some e \<longrightarrow> k = length (regular pre))
               \<and> (Call_Stop \<notin> set evs \<longrightarrow> x = Some e \<and> (0 < m \<longrightarrow> k = length (regular pre)))"
    using r [unfolded ok] xe xf kl ns by simp
  then show ?thesis by blast
qed

theorem walker_entries_before_error_witness:
  "map_option fst
     (run [Walk_step, Walk_step, Select_send, Call_Next, Walk_step, Select_send, Walk_step,
           Call_Next, Call_Next, Call_Next] (NewWalker demo_visits))
     = Some [(Some \<lparr>Path = ''d/a'', Info = \<lparr>Mode = 0x180\<rparr>\<rparr>, None),
             (Some \<lparr>Path = ''d/b'', Info = \<lparr>Mode = 0x180\<rparr>\<rparr>, None),
             (None, Some (SysError ''permission denied'')),
             (None, Some (SysError ''permission denied''))]
   \<and> [(Some \<lparr>Path = ''d/a'', Info = \<lparr>Mode = 0x180\<rparr>\<rparr>, None),
       (Some \<lparr>Path = ''d/b'', Info = \<lparr>Mode = 0x180\<rparr>\<rparr>, None),
       (None, Some (SysError ''permission denied'')),
       (None, Some (SysError ''permission denied''))]
      = map (\<lambda>r. (Some r, None))
          (take 2 [\<lparr>Path = ''d/a'', Info = \<lparr>Mode = 0x180\<rparr>\<rparr>,
                   \<lparr>Path = ''d/b'', Info = \<lparr>Mode = 0x180\<rparr>\<rparr>])
        @ replicate 2 (None, Some (SysError ''permission denied''))
   \<and> map_option fst
     (run [Walk_step, Walk_step, Select_send, Walk_step, Select_send, Call_Stop, Call_Stop,
           Walk_step, Call_Next, Call_Next, Call_Next] (NewWalker demo_visits))
     = Some [(Some \<lparr>Path = ''d/a'', Info = \<lparr>Mode = 0x180\<rparr>\<rparr>, None),
             (Some \<lparr>Path = ''d/b'', Info = \<lparr>Mode = 0x180\<rparr>\<rparr>, None),
             (None, Some (SysError ''permission denied''))]
   \<and> [(Some \<lparr>Path = ''d/a'', Info = \<lparr>Mode = 0x180\<rparr>\<rparr>, None),
       (Some \<lparr>Path = ''d/b'', Info = \<lparr>Mode = 0x180\<rparr>\<rparr>, None),
       (None, Some (SysError ''permission denied''))]
      = map (\<lambda>r. (Some r, None))
          (take 2 [\<lparr>Path = ''d/a'', Info = \<lparr>Mode = 0x180\<rparr>\<rparr>,
                   \<lparr>Path = ''d/b'', Info = \<lparr>Mode = 0x180\<rparr>\<rparr>])
        @ replicate 1 (None, Some (SysError ''permission denied''))
   \<and> map_option fst
     (run [Walk_step, Walk_step, Select_send, Walk_step, Call_Stop, Select_stop,
           Call_Next, Call_Next, Call_Next] (NewWalker demo_visits))
     = Some [(Some \<lparr>Path = ''d/a'', Info = \<lparr>Mode = 0x180\<rparr>\<rparr>, None), (None, None), (None, None)]"
proof -
  let ?evs = "[Walk_step, Walk_step, Select_send, Call_Next, Walk_step, Select_send, Walk_step,
           Call_Next, Call_Next, Call_Next]"
  let ?evs2 = "[Walk_step, Walk_step, Select_send, Walk_step, Select_send, Call_Stop, Call_Stop,
           Walk_step, Call_Next, Call_Next, Call_Next]"
  let ?evs3 = "[Walk_step, Walk_step, Select_send, Walk_step, Call_Stop, Select_stop,
           Call_Next, Call_Next, Call_Next]"
  let ?pre = "[(''d'', \<lparr>Mode = 0x800001ED\<rparr>, None),
      (''d/a'', \<lparr>Mode = 0x180\<rparr>, None),
      (''d/b'', \<lparr>Mode = 0x180\<rparr>, None :: error option)]"
  let ?post = "[(''d/e'', \<lparr>Mode = 0x180\<rparr>, None :: error option)]"
  let ?E = "SysError ''permission denied''"
  let ?regs = "[\<lparr>Path = ''d/a'', Info = \<lparr>Mode = 0x180\<rparr>\<rparr>, \<lparr>Path = ''d/b'', Info = \<lparr>Mode = 0x180\<rparr>\<rparr>]"
  let ?rets = "[(Some \<lparr>Path = ''d/a'', Info = \<lparr>Mode = 0x180\<rparr>\<rparr>, None),
             (Some \<lparr>Path = ''d/b'', Info = \<lparr>Mode = 0x180\<rparr>\<rparr>, None),
             (None, Some ?E), (None, Some ?E)]"
  let ?rets2 = "[(Some \<lparr>Path = ''d/a'', Info = \<lparr>Mode = 0x180\<rparr>\<rparr>, None),
             (Some \<lparr>Path = ''d/b'', Info = \<lparr>Mode = 0x180\<rparr>\<rparr>, None),
             (None, Some ?E)]"
  have r: "map_option fst (run ?evs (NewWalker demo_visits)) = Some ?rets"
    by code_simp
  have r2: "map_option fst (run ?evs2 (NewWalker demo_visits)) = Some ?rets2"
    by code_simp
  have r3: "map_option fst (run ?evs3 (NewWalker demo_visits))
            = Some [(Some \<lparr>Path = ''d/a'', Info = \<lparr>Mode = 0x180\<rparr>\<rparr>, None), (None, None), (None, None)]"
    by code_simp
  from r obtain w where rw: "run ?evs (NewWalker demo_visits) = Some (?rets, w)"
    by (cases "run ?evs (NewWalker demo_visits)") auto
  from r2 obtain w2 where rw2: "run ?evs2 (NewWalker demo_visits) = Some (?rets2, w2)"
    by (cases "run ?evs2 (NewWalker demo_visits)") auto
  have dv: "demo_visits = ?pre @ (''d/c'', \<lparr>Mode = 0x800001C0\<rparr>, Some ?E) # ?post"
    by (simp add: demo_visits_def)
  have reg: "regular ?pre = ?regs"
    by code_simp
  have h: "\<forall>v \<in> set ?pre. snd (snd v) = None" "?E \<noteq> WalkStopped" "Call_Stop \<notin> set ?evs"
    by simp_all
  have a: "?rets = map (\<lambda>r. (Some r, None)) (take 2 ?regs) @ replicate 2 (None, Some ?E)"
  proof -
    from walker_entries_before_error [OF rw [unfolded dv] h(1,2)]
    obtain k m x where
      kx: "?rets = map (\<lambda>r. (Some r, None)) (take k (regular ?pre)) @ replicate m (None, x)"
      and ns: "Call_Stop \<notin> set ?evs \<longrightarrow> x = Some ?E \<and> (0 < m \<longrightarrow> k = length (regular ?pre))"
      by (elim exE conjE) (rule that)
    from ns h(3) have x: "x = Some ?E" and k: "0 < m \<longrightarrow> k = length (regular ?pre)"
      by (rule mp [THEN conjunct1], rule mp [THEN conjunct2])
    note km = kx [unfolded x reg]
    from arg_cong [OF km, where f = length] have lm: "min k 2 + m = 4"
      by (simp add: min_def split: if_splits)
    then have "0 < m" by simp
    with k have k2: "k = 2" by (simp add: reg)
    with lm have m2: "m = 2" by simp
    from km show ?thesis unfolding k2 m2 .
  qed
  have b: "?rets2 = map (\<lambda>r. (Some r, None)) (take 2 ?regs) @ replicate 1 (None, Some ?E)"
  proof -
    from walker_entries_before_error [OF rw2 [unfolded dv] h(1,2)]
    obtain k m x where
      kx: "?rets2 = map (\<lambda>r. (Some r, None)) (take k (regular ?pre)) @ replicate m (None, x)"
      and kl: "0 < m \<and> x = Some ?E \<longrightarrow> k = length (regular ?pre)"
      by (elim exE conjE) (rule that)
    note km = kx [unfolded reg]
    from arg_cong [OF km, where f = length] have lm: "min k 2 + m = 3"
      by (simp add: min_def split: if_splits)
    then have m0: "0 < m" by simp
    then have "last (map (\<lambda>r. (Some r, None)) (take k ?regs) @ replicate m (None, x)) = (None, x)"
      by simp
    with arg_cong [OF km, where f = last] have x: "x = Some ?E" by simp
    with kl m0 have k2: "k = 2" by (simp add: reg)
    with lm have m1: "m = 1" by simp
    from km show ?thesis unfolding k2 m1 x .
  qed
  show ?thesis
    by (intro conjI) (fact r, fact a, fact r2, fact b, fact r3)
qed

theorem walker_error_returned_twice_counterexample:
  "map_option fst
     (run [Walk_step, Call_Next, Call_Next]
        (NewWalker [(''d'', \<lparr>Mode = 0x800001C0\<rparr>, Some (SysError ''permission denied''))]))
     = Some [(None, Some (SysError ''permission denied'')),
             (None, Some (SysError ''permission denied''))]"
  by code_simp


text \<open>
  C8. Claimed: if the value field of the Nth record of the input array is not valid
  base64, the array-to-tree conversion fails, the error names the ordinal N, and no
  output file is created or written for that entry. The converter looks at the key
  first: a record whose key lacks the prefix is skipped before its value is decoded.
  The counterexample is such a record. What holds: if the N-1 records before it
  were converted without error, the key of the Nth record has the prefix and its
  value is not valid base64, then the run fails with the error of the decoder
  wrapped with the ordinal N, and the file system is the one left by the first N-1
  records, whatever the file system calls do.
\<close>

theorem corrupt_value_fails_with_ordinal:
  assumes fresh: "count c = 0" "firstErr c = None"
    and pre: "ConvertAll os (c\<lparr>input := pre\<rparr>) fs = (None, c1, fs1)"
    and key: "keyHasPrefix (consul_Key e) (keyPrefix c)"
    and val: "base64_DecodeString (consul_Value e) = Inl err"
  shows "ConvertAll os (c\<lparr>input := pre @ Inr e # rest\<rparr>) fs =
           (Some (WhileProcessingEntry (of_nat (length pre) + 1) err),
            c1\<lparr>input := rest, count := of_nat (length pre) + 1,
               firstErr := Some (WhileProcessingEntry (of_nat (length pre) + 1) err)\<rparr>,
            fs1)"
proof -
  from ConvertAll_prefix [OF pre, of "Inr e # rest"] fresh
  have run: "ConvertAll os (c\<lparr>input := pre @ Inr e # rest\<rparr>) fs
             = ConvertAll os (c1\<lparr>input := Inr e # rest\<rparr>) fs1"
    and cnt: "count c1 = of_nat (length pre)" and fe: "firstErr c1 = None"
    and kp: "keyPrefix c1 = keyPrefix c"
    by simp_all
  let ?c = "c1\<lparr>input := Inr e # rest\<rparr>"
  have "convert os (?c\<lparr>count := count ?c + 1\<rparr>) fs1
        = (Some err, ?c\<lparr>count := count ?c + 1, input := rest\<rparr>, fs1)"
    using key val kp by (simp add: convert_corrupt [where e = e and rest = rest])
  then have "Convert os ?c fs1
        = (False, c1\<lparr>input := rest, count := of_nat (length pre) + 1,
               firstErr := Some (WhileProcessingEntry (of_nat (length pre) + 1) err)\<rparr>, fs1)"
    using cnt fe by (simp add: Convert_def Let_def setErr_def)
  then have "ConvertAll os ?c fs1 = (Some (WhileProcessingEntry (of_nat (length pre) + 1) err),
            c1\<lparr>input := rest, count := of_nat (length pre) + 1,
               firstErr := Some (WhileProcessingEntry (of_nat (length pre) + 1) err)\<rparr>, fs1)"
    by (subst ConvertAll.simps) (simp add: Err_def)
  with run show ?thesis by simp
qed

theorem corrupt_value_fails_with_ordinal_witness:
  "ConvertAll mem_os
     (demo_Converter\<lparr>input :=
        [Inr \<lparr>consul_Key = ''vault/a'', consul_Flags = 0, consul_Value = ''aGk=''\<rparr>,
         Inr \<lparr>consul_Key = ''vault/b'', consul_Flags = 0, consul_Value = ''!!!''\<rparr>,
         Inr \<lparr>consul_Key = ''vault/c'', consul_Flags = 0, consul_Value = ''aGk=''\<rparr>]\<rparr>) []
   = (Some (WhileProcessingEntry 2 CorruptInputError),
      demo_Converter\<lparr>input :=
          [Inr \<lparr>consul_Key = ''vault/c'', consul_Flags = 0, consul_Value = ''aGk=''\<rparr>],
        count := 2, firstErr := Some (WhileProcessingEntry 2 CorruptInputError)\<rparr>,
      [(''out/_a'', [\<lparr>vault_Key = ''a'', vault_Value = [0x68, 0x69]\<rparr>])])"
proof -
  let ?a = "\<lparr>consul_Key = ''vault/a'', consul_Flags = 0, consul_Value = ''aGk=''\<rparr>"
  let ?b = "\<lparr>consul_Key = ''vault/b'', consul_Flags = 0, consul_Value = ''!!!''\<rparr>"
  let ?c = "\<lparr>consul_Key = ''vault/c'', consul_Flags = 0, consul_Value = ''aGk=''\<rparr>"
  have k: "keyHasPrefix ''vault/a'' ''vault''" "keyHasPrefix ''vault/b'' ''vault''"
    by code_simp+
  have ea: "convertEntry_cf ?a ''vault'' = Inr \<lparr>vault_Key = ''a'', vault_Value = [0x68, 0x69]\<rparr>"
    by code_simp
  have p: "filepath_Join [''out'', [], ''_a''] = ''out/_a''" "filepath_Dir ''out/_a'' = ''out''"
    "path_Split ''a'' = ([], ''a'')"
    by code_simp+
  have pre: "ConvertAll mem_os (demo_Converter\<lparr>input := [Inr ?a]\<rparr>) []
             = (None, demo_Converter\<lparr>count := 1\<rparr>,
                [(''out/_a'', [\<lparr>vault_Key = ''a'', vault_Value = [0x68, 0x69]\<rparr>])])"
    by (simp add: ConvertAll.simps Convert_def convert_def openFile_def Let_def
        demo_Converter_def k ea p mem_os_def Err_def fs_get_def)
  have bad: "base64_DecodeString (consul_Value ?b) = Inl CorruptInputError"
    by code_simp
  have fresh: "count demo_Converter = 0" "firstErr demo_Converter = None"
    by (simp_all add: demo_Converter_def)
  have key: "keyHasPrefix (consul_Key ?b) (keyPrefix demo_Converter)"
    by (simp add: demo_Converter_def k)
  show ?thesis
    using corrupt_value_fails_with_ordinal [OF fresh pre key bad, of "[Inr ?c]"]
    by (simp add: demo_Converter_def)
qed

theorem corrupt_value_foreign_key_counterexample:
  "base64_DecodeString ''!!!'' = Inl CorruptInputError
   \<and> ConvertAll mem_os
        (demo_Converter\<lparr>input :=
           [Inr \<lparr>consul_Key = ''other/x'', consul_Flags = 0, consul_Value = ''!!!''\<rparr>]\<rparr>) []
      = (None, demo_Converter\<lparr>count := 1\<rparr>, [])"
proof -
  have a: "\<not> keyHasPrefix ''other/x'' ''vault''" by code_simp
  have b: "base64_DecodeString ''!!!'' = Inl CorruptInputError" by code_simp
  show ?thesis
    by (simp add: ConvertAll.simps Convert_def convert_def Let_def demo_Converter_def a b Err_def)
qed



text \<open>
  C10. In the array-to-tree converter with the namespace filter, an entry whose key
  is equal to the configured prefix passes \<^verbatim>\<open>keyHasPrefix\<close>;
  \<^verbatim>\<open>keyStripPrefix\<close> maps its key to the empty string; and \<^verbatim>\<open>convert\<close> goes on to
  \<^verbatim>\<open>openFile\<close> with the empty key and writes the record, with no check for an
  empty key. \<^verbatim>\<open>openFile\<close> makes the directory of, and opens, the path joined from
  the output root, an empty directory part and the name \<^verbatim>\<open>_\<close>, whose last element
  is \<^verbatim>\<open>_\<close>.
\<close>

theorem key_equal_to_prefix_written_to_underscore:
  "keyHasPrefix p p
   \<and> keyStripPrefix p p = []
   \<and> (input c = Inr e # rest \<and> consul_Key e = keyPrefix c
        \<and> base64_DecodeString (consul_Value e) = Inr v \<longrightarrow>
      convert os c fs =
        (case openFile os (outputRootPath c) [] fs of
           (Inl err, fs1) \<Rightarrow> (Some err, c\<lparr>input := rest\<rparr>, fs1)
         | (Inr f, fs1) \<Rightarrow>
             (case json_Encode os f \<lparr>vault_Key = [], vault_Value = v\<rparr> fs1 of
                (err, fs2) \<Rightarrow> (err, c\<lparr>input := rest\<rparr>, fs2))))
   \<and> openFile os root [] fs =
        (case os_MkdirAll os (filepath_Dir (filepath_Join [root, [], ''_''])) fs of
           (Some err, fs1) \<Rightarrow> (Inl err, fs1)
         | (None, fs1) \<Rightarrow>
             (case os_OpenFile os (filepath_Join [root, [], ''_'']) fs1 of
                (Some err, fs2) \<Rightarrow> (Inl err, fs2)
              | (None, fs2) \<Rightarrow> (Inr (filepath_Join [root, [], ''_'']), fs2)))
   \<and> snd (path_Split (filepath_Join [root, [], ''_''])) = ''_''
   \<and> (root \<noteq> [] \<longrightarrow>
        filepath_Join [root, [], ''_''] =
          (if filepath_Clean root = ''.'' then ''_''
           else if filepath_Clean root = ''/'' then ''/_''
           else filepath_Clean root @ ''/_''))"
proof -
  have "convert os c fs =
        (case openFile os (outputRootPath c) [] fs of
           (Inl err, fs1) \<Rightarrow> (Some err, c\<lparr>input := rest\<rparr>, fs1)
         | (Inr f, fs1) \<Rightarrow>
             (case json_Encode os f \<lparr>vault_Key = [], vault_Value = v\<rparr> fs1 of
                (err, fs2) \<Rightarrow> (err, c\<lparr>input := rest\<rparr>, fs2)))"
    if "input c = Inr e # rest" "consul_Key e = keyPrefix c"
      "base64_DecodeString (consul_Value e) = Inr v"
    using convert_write [OF that(1) _ that(3), of os fs] that(2)
    by (simp add: keyHasPrefix_self keyStripPrefix_self Let_def)
  moreover have "openFile os root [] fs =
        (case os_MkdirAll os (filepath_Dir (filepath_Join [root, [], ''_''])) fs of
           (Some err, fs1) \<Rightarrow> (Inl err, fs1)
         | (None, fs1) \<Rightarrow>
             (case os_OpenFile os (filepath_Join [root, [], ''_'']) fs1 of
                (Some err, fs2) \<Rightarrow> (Inl err, fs2)
              | (None, fs2) \<Rightarrow> (Inr (filepath_Join [root, [], ''_'']), fs2)))"
    by (simp add: openFile_def path_Split_Nil Let_def)
  ultimately show ?thesis
    using keyHasPrefix_self [of p] keyStripPrefix_self [of p]
      base_of_Join_underscore [of root] Join_underscore_closed_form [of root]
    by blast
qed

theorem key_equal_to_prefix_written_to_underscore_witness:
  "ConvertAll mem_os
     (demo_Converter\<lparr>input :=
        [Inr \<lparr>consul_Key = ''vault'', consul_Flags = 0, consul_Value = ''aGk=''\<rparr>]\<rparr>) []
   = (None, demo_Converter\<lparr>count := 1\<rparr>,
      [(''out/_'', [\<lparr>vault_Key = [], vault_Value = [0x68, 0x69]\<rparr>])])
   \<and> ''out'' \<noteq> [] \<and> filepath_Join [''out'', [], ''_''] = ''out/_''"
proof -
  let ?e = "\<lparr>consul_Key = ''vault'', consul_Flags = 0, consul_Value = ''aGk=''\<rparr>"
  let ?c = "demo_Converter\<lparr>input := [Inr ?e], count := 1\<rparr>"
  have v: "base64_DecodeString (consul_Value ?e) = Inr [0x68, 0x69]" by code_simp
  have cl: "filepath_Clean ''out'' = ''out''" by code_simp
  have d: "filepath_Dir ''out/_'' = ''out''" by code_simp
  have root: "outputRootPath ?c = ''out''"
    by (simp add: demo_Converter_def)
  have h: "input ?c = Inr ?e # [] \<and> consul_Key ?e = keyPrefix ?c
        \<and> base64_DecodeString (consul_Value ?e) = Inr [0x68, 0x69]"
    using v by (simp add: demo_Converter_def)
  have ne: "''out'' \<noteq> []" by simp
  note inst = key_equal_to_prefix_written_to_underscore
         [of "''vault''" ?c ?e "[]" "[0x68, 0x69]" mem_os "[]" "''out''"]
  from inst h
  have cv: "convert mem_os ?c [] =
        (case openFile mem_os (outputRootPath ?c) [] [] of
           (Inl err, fs1) \<Rightarrow> (Some err, ?c\<lparr>input := []\<rparr>, fs1)
         | (Inr f, fs1) \<Rightarrow>
             (case json_Encode mem_os f \<lparr>vault_Key = [], vault_Value = [0x68, 0x69]\<rparr> fs1 of
                (err, fs2) \<Rightarrow> (err, ?c\<lparr>input := []\<rparr>, fs2)))"
    by blast
  from inst
  have op: "openFile mem_os ''out'' [] [] =
        (case os_MkdirAll mem_os (filepath_Dir (filepath_Join [''out'', [], ''_''])) [] of
           (Some err, fs1) \<Rightarrow> (Inl err, fs1)
         | (None, fs1) \<Rightarrow>
             (case os_OpenFile mem_os (filepath_Join [''out'', [], ''_'']) fs1 of
                (Some err, fs2) \<Rightarrow> (Inl err, fs2)
              | (None, fs2) \<Rightarrow> (Inr (filepath_Join [''out'', [], ''_'']), fs2)))"
    by blast
  from inst ne
  have "filepath_Join [''out'', [], ''_''] =
          (if filepath_Clean ''out'' = ''.'' then ''_''
           else if filepath_Clean ''out'' = ''/'' then ''/_''
           else filepath_Clean ''out'' @ ''/_'')"
    by blast
  then have pj: "filepath_Join [''out'', [], ''_''] = ''out/_''"
    by (simp add: cl)
  have "convert mem_os ?c [] = (None, demo_Converter\<lparr>count := 1\<rparr>,
      [(''out/_'', [\<lparr>vault_Key = [], vault_Value = [0x68, 0x69]\<rparr>])])"
    unfolding cv root op by (simp add: pj d mem_os_def demo_Converter_def fs_get_def)
  then show ?thesis
    by (simp add: ConvertAll.simps Convert_def Let_def demo_Converter_def Err_def pj)
qed

end
